theory Spec2Isabelle
  imports Complex_Main "HOL-Library.Log_Nat" "HOL-Library.AList" "HOL-Library.Multiset"
begin

text \<open>
  An expense dashboard: a form records expenses in a store, and the page shows the expenses
  that pass the filters together with their total, their average, the category with the
  greatest sum and a breakdown by category. The theory follows the component
  \<open>ExpenseDashboard\<close>: first the numbers and strings it computes with, then its derived
  values and its submit handler, then what holds of them.
\<close>

section \<open>JavaScript numbers\<close>

text \<open>
  The dashboard computes with JavaScript numbers, that is IEEE-754 binary64 values with
  round-to-nearest, ties-to-even. A finite number is modelled by its exact rational value,
  and every arithmetic operation rounds the exact result back to binary64, overflowing to
  an infinity. The two zeros are identified: the dashboard never divides by a zero and never
  inspects the sign of a zero, so the sign of a zero cannot be observed.
\<close>

datatype number = NaN | PosInf | NegInf | Fin rat

text \<open>For \<open>0 < q\<close>, \<open>ilog2 q\<close> is the exponent \<open>e\<close> with \<open>2 powi e \<le> q < 2 powi (e + 1)\<close>.\<close>

definition ilog2 :: "rat \<Rightarrow> int" where
  "ilog2 q =
     (let k = bitlen (fst (quotient_of q)) - bitlen (snd (quotient_of q))
      in if 2 powi k \<le> q then k else k - 1)"

definition round_half_even :: "rat \<Rightarrow> int" where
  "round_half_even x =
     (let f = \<lfloor>x\<rfloor>; r = x - of_int f
      in if r < 1 / 2 then f
         else if 1 / 2 < r then f + 1
         else if even f then f else f + 1)"

text \<open>
  Rounding of an exact value to binary64: 53 significant bits, the exponent clamped below
  at \<open>-1022\<close> (subnormal numbers), overflow to an infinity from \<open>2 powi 1024\<close> on.
\<close>

definition round_double :: "rat \<Rightarrow> number" where
  "round_double q =
     (if q = 0 then Fin 0
      else
        let e = max (ilog2 \<bar>q\<bar>) (- 1022);
            ulp = 2 powi (e - 52);
            r = of_int (round_half_even (\<bar>q\<bar> / ulp)) * ulp
        in if 2 powi 1024 \<le> r then (if 0 < q then PosInf else NegInf)
           else Fin (if 0 < q then r else - r))"

text \<open>A finite value is a binary64 number when rounding leaves it as it is.\<close>

fun is_double :: "number \<Rightarrow> bool" where
  "is_double (Fin q) = (round_double q = Fin q)"
| "is_double _ = True"

fun js_neg :: "number \<Rightarrow> number" where
  "js_neg NaN = NaN"
| "js_neg PosInf = NegInf"
| "js_neg NegInf = PosInf"
| "js_neg (Fin q) = Fin (- q)"

text \<open>The operator \<open>+\<close> on numbers.\<close>

fun js_add :: "number \<Rightarrow> number \<Rightarrow> number" where
  "js_add NaN _ = NaN"
| "js_add _ NaN = NaN"
| "js_add PosInf NegInf = NaN"
| "js_add NegInf PosInf = NaN"
| "js_add PosInf _ = PosInf"
| "js_add _ PosInf = PosInf"
| "js_add NegInf _ = NegInf"
| "js_add _ NegInf = NegInf"
| "js_add (Fin a) (Fin b) = round_double (a + b)"

text \<open>The operator \<open>-\<close> on numbers.\<close>

definition js_sub :: "number \<Rightarrow> number \<Rightarrow> number" where
  "js_sub x y = js_add x (js_neg y)"

text \<open>The operator \<open>/\<close> on numbers; a zero divisor counts as \<open>+0\<close>.\<close>

fun js_div :: "number \<Rightarrow> number \<Rightarrow> number" where
  "js_div NaN _ = NaN"
| "js_div _ NaN = NaN"
| "js_div (Fin a) (Fin b) =
     (if b = 0 then (if a = 0 then NaN else if 0 < a then PosInf else NegInf)
      else round_double (a / b))"
| "js_div (Fin a) _ = Fin 0"
| "js_div PosInf (Fin b) = (if 0 \<le> b then PosInf else NegInf)"
| "js_div NegInf (Fin b) = (if 0 \<le> b then NegInf else PosInf)"
| "js_div _ _ = NaN"

text \<open>The comparisons \<open><\<close> and \<open><=\<close> on numbers; both are false when an operand is \<open>NaN\<close>.\<close>

fun js_lt :: "number \<Rightarrow> number \<Rightarrow> bool" where
  "js_lt NaN _ = False"
| "js_lt _ NaN = False"
| "js_lt (Fin a) (Fin b) = (a < b)"
| "js_lt PosInf _ = False"
| "js_lt _ NegInf = False"
| "js_lt _ _ = True"

fun js_le :: "number \<Rightarrow> number \<Rightarrow> bool" where
  "js_le NaN _ = False"
| "js_le _ NaN = False"
| "js_le (Fin a) (Fin b) = (a \<le> b)"
| "js_le NegInf _ = True"
| "js_le _ PosInf = True"
| "js_le _ _ = False"

text \<open>\<open>Number.isNaN\<close>.\<close>

fun isNaN :: "number \<Rightarrow> bool" where
  "isNaN NaN = True"
| "isNaN _ = False"

section \<open>Strings and arrays\<close>

text \<open>
  \<open>String.prototype.includes\<close>, here \<open>string_includes\<close>: the needle occurs in the string
  at some position.
\<close>

fun startsWith :: "string \<Rightarrow> string \<Rightarrow> bool" where
  "startsWith _ [] = True"
| "startsWith [] (_ # _) = False"
| "startsWith (c # cs) (d # ds) = (c = d \<and> startsWith cs ds)"

fun string_includes :: "string \<Rightarrow> string \<Rightarrow> bool" where
  "string_includes [] needle = (needle = [])"
| "string_includes (c # cs) needle = (startsWith (c # cs) needle \<or> string_includes cs needle)"

text \<open>
  \<open>String.prototype.trim\<close> removes white space and line terminators at both ends. Which
  code units count as white space is fixed by the language; the predicate is a parameter.
\<close>

definition trim :: "(char \<Rightarrow> bool) \<Rightarrow> string \<Rightarrow> string" where
  "trim isWhiteSpace s = rev (dropWhile isWhiteSpace (rev (dropWhile isWhiteSpace s)))"

text \<open>
  \<open>Array.prototype.sort\<close> with a comparator is a stable sort: an element moves behind
  another one only where the comparator's result is positive (a \<open>NaN\<close> result counts as
  zero). For a comparator that orders the elements consistently the stable sorted
  arrangement is unique, so insertion from the right computes it.
\<close>

fun sort_insert :: "('a \<Rightarrow> 'a \<Rightarrow> number) \<Rightarrow> 'a \<Rightarrow> 'a list \<Rightarrow> 'a list" where
  "sort_insert cmp x [] = [x]"
| "sort_insert cmp x (y # ys) =
     (if js_lt (Fin 0) (cmp x y) then y # sort_insert cmp x ys else x # y # ys)"

definition array_sort :: "('a \<Rightarrow> 'a \<Rightarrow> number) \<Rightarrow> 'a list \<Rightarrow> 'a list" where
  "array_sort cmp xs = foldr (sort_insert cmp) xs []"

section \<open>The dashboard\<close>

text \<open>
  An expense as the store keeps it: the six fields the form supplies and the identifier the
  store adds. The argument of \<open>addExpense\<close> is the record without the identifier.
  Categories, payment methods and dates are JavaScript strings. The field \<open>id\<close> is called
  \<open>expense_id\<close> here and \<open>notes\<close> is \<open>notes'\<close>, an absent note being \<open>None\<close>; the fields
  of the form state carry the prefix \<open>form_\<close>.
\<close>

record expense_input =
  description :: string
  amount :: number
  category :: string
  paymentMethod :: string
  date :: string
  notes' :: "string option"

record 'i expense = expense_input +
  expense_id :: 'i

record ExpenseFormState =
  form_description :: string
  form_amount :: string
  form_category :: string
  form_paymentMethod :: string
  form_date :: string
  form_notes :: string

definition defaultFormState :: "string \<Rightarrow> ExpenseFormState" where
  "defaultFormState todayIso =
     \<lparr>form_description = [], form_amount = [], form_category = ''Food'',
      form_paymentMethod = ''Card'', form_date = todayIso, form_notes = []\<rparr>"

text \<open>
  \<open>filteredExpenses\<close>. The helper \<open>getMonthKey\<close> of the formatting library and the
  built-in \<open>toLowerCase\<close> are parameters.
\<close>

definition filteredExpenses ::
  "(string \<Rightarrow> string) \<Rightarrow> (string \<Rightarrow> string) \<Rightarrow> 'i expense list \<Rightarrow>
   string \<Rightarrow> string \<Rightarrow> string \<Rightarrow> 'i expense list" where
  "filteredExpenses getMonthKey toLowerCase expenses categoryFilter monthFilter searchTerm =
     filter (\<lambda>expense.
       let matchesCategory = (categoryFilter = ''All'' \<or> category expense = categoryFilter);
           matchesMonth = (monthFilter = ''all'' \<or> getMonthKey (date expense) = monthFilter);
           matchesSearch = (searchTerm = [] \<or>
             string_includes (toLowerCase (description expense)) (toLowerCase searchTerm))
       in matchesCategory \<and> matchesMonth \<and> matchesSearch) expenses"

text \<open>
  \<open>totals\<close>; its field \<open>total\<close> is called \<open>total_sum\<close> here. The object \<open>categories\<close> is
  the list of its entries in insertion order, which is the order of \<open>Object.entries\<close>. This
  is how an object behaves for the keys in use, the category names of the store's module:
  none of them is an array index or the name of a property that every object inherits.
\<close>

record totals =
  total_sum :: number
  topCategory :: "(string \<times> number) option"
  average :: number
  categories :: "(string \<times> number) list"

definition totals :: "'i expense list \<Rightarrow> totals" where
  "totals filtered =
     (let total = foldl (\<lambda>sum expense. js_add sum (amount expense)) (Fin 0) filtered;
          categories = foldl (\<lambda>acc expense.
              AList.update (category expense)
                (js_add (case map_of acc (category expense) of None \<Rightarrow> Fin 0 | Some v \<Rightarrow> v)
                   (amount expense)) acc) [] filtered;
          topCategory =
            (case array_sort (\<lambda>(_, a) (_, b). js_sub b a) categories of
               [] \<Rightarrow> None
             | entry # _ \<Rightarrow> Some entry);
          average =
            (if length filtered = 0 then Fin 0
             else js_div total (Fin (of_nat (length filtered))))
      in \<lparr>total_sum = total, topCategory = topCategory, average = average,
          categories = categories\<rparr>)"

text \<open>The value shown for a category in the breakdown: \<open>totals.categories[category] ?? 0\<close>.\<close>

definition category_value :: "totals \<Rightarrow> string \<Rightarrow> number" where
  "category_value t c = (case map_of (categories t) c of None \<Rightarrow> Fin 0 | Some v \<Rightarrow> v)"

definition recentExpenses :: "'i expense list \<Rightarrow> 'i expense list" where
  "recentExpenses filtered = take 6 filtered"

text \<open>
  \<open>Number(amount.toFixed(2))\<close>. \<open>toFixed(2)\<close> prints the integer \<open>n\<close> for which
  \<open>n / 100\<close> is nearest to the magnitude of the number, the larger one of two, with two
  decimals; from \<open>10 ^ 21\<close> on it prints the number as \<open>String\<close> does, and \<open>Number\<close>
  reads that back to the same number. \<open>Number\<close> rounds the decimal to binary64.
\<close>

fun toFixed2_Number :: "number \<Rightarrow> number" where
  "toFixed2_Number (Fin q) =
     (if 10 ^ 21 \<le> \<bar>q\<bar> then Fin q
      else let r = of_int \<lfloor>\<bar>q\<bar> * 100 + 1 / 2\<rfloor> / 100
           in round_double (if q < 0 then - r else r))"
| "toFixed2_Number x = x"

text \<open>
  \<open>handleSubmit\<close>, as a function from the form state and the store to the new ones. The
  built-in \<open>parseFloat\<close>, the white space of \<open>trim\<close>, the store's \<open>addExpense\<close> and the
  date of the page load are parameters.
\<close>

definition handleSubmit ::
  "(char \<Rightarrow> bool) \<Rightarrow> (string \<Rightarrow> number) \<Rightarrow> (expense_input \<Rightarrow> 's \<Rightarrow> 's) \<Rightarrow> string \<Rightarrow>
   ExpenseFormState \<times> 's \<Rightarrow> ExpenseFormState \<times> 's" where
  "handleSubmit isWhiteSpace parseFloat addExpense todayIso = (\<lambda>(form, store).
     let amount = parseFloat (form_amount form)
     in if trim isWhiteSpace (form_description form) = [] \<or> isNaN amount \<or> js_le amount (Fin 0)
        then (form, store)
        else
          (defaultFormState todayIso\<lparr>form_date := form_date form\<rparr>,
           addExpense
             \<lparr>description = trim isWhiteSpace (form_description form),
              amount = toFixed2_Number amount,
              category = form_category form,
              paymentMethod = form_paymentMethod form,
              date = form_date form,
              notes' = (if trim isWhiteSpace (form_notes form) = [] then None
                        else Some (trim isWhiteSpace (form_notes form)))\<rparr>
             store))"

section \<open>The expense store\<close>

text \<open>
  Modelled from the spec: the store module (the hook \<open>useExpenseStore\<close> with its
  \<open>addExpense\<close>) is not among the source files. The spec describes it as a local reactive
  store wrapping browser storage, which persists the recorded expenses in browser-local
  storage. The state is the list the store hands to the dashboard together with the list
  saved in the browser's storage, if any.
\<close>

record 'i expense_store =
  expenses :: "'i expense list"
  localStorage :: "'i expense list option"

text \<open>
  Modelled from the spec: \<open>addExpense\<close> of the missing store module. It gives the recorded
  expense an identifier, puts it into the list and saves the list in the browser's storage.
\<close>

definition addExpense ::
  "('i expense list \<Rightarrow> 'i) \<Rightarrow> expense_input \<Rightarrow> 'i expense_store \<Rightarrow> 'i expense_store" where
  "addExpense newId input store =
     (let expense =
            \<lparr>description = description input, amount = amount input,
             category = category input, paymentMethod = paymentMethod input,
             date = date input, notes' = notes' input,
             expense_id = newId (expenses store)\<rparr>;
          updated = expense # expenses store
      in \<lparr>expenses = updated, localStorage = Some updated\<rparr>)"

text \<open>
  Modelled from the spec: the start of a later session of the missing store module, which
  reads the list back from the browser's storage.
\<close>

definition loadStore :: "'i expense list option \<Rightarrow> 'i expense_store" where
  "loadStore saved =
     \<lparr>expenses = (case saved of None \<Rightarrow> [] | Some es \<Rightarrow> es), localStorage = saved\<rparr>"

section \<open>Reference notions and sample data\<close>

text \<open>
  The sum of a list of numbers as JavaScript computes it: \<open>+\<close> applied from left to
  right, starting from \<open>0\<close>.
\<close>

fun js_sum_from :: "number \<Rightarrow> number list \<Rightarrow> number" where
  "js_sum_from acc [] = acc"
| "js_sum_from acc (x # xs) = js_sum_from (js_add acc x) xs"

definition js_sum :: "number list \<Rightarrow> number" where
  "js_sum xs = js_sum_from (Fin 0) xs"

text \<open>
  Rounding to two decimal places: the nearest multiple of \<open>1 / 100\<close>, the larger one of
  two.
\<close>

definition round_two_decimals :: "rat \<Rightarrow> rat" where
  "round_two_decimals q = of_int \<lfloor>q * 100 + 1 / 2\<rfloor> / 100"

text \<open>Lower-casing of the letters A to Z, a month key and three expenses, for examples.\<close>

definition ascii_toLowerCase :: "string \<Rightarrow> string" where
  "ascii_toLowerCase =
     map (\<lambda>c. let n = (of_char c :: nat) in if 65 \<le> n \<and> n \<le> 90 then char_of (n + 32) else c)"

definition iso_month :: "string \<Rightarrow> string" where
  "iso_month d = take 7 d"

definition example_expenses :: "nat expense list" where
  "example_expenses =
     [\<lparr>description = ''Coffee'', amount = Fin 1, category = ''Food'',
       paymentMethod = ''Card'', date = ''2024-05-02'', notes' = None, expense_id = 1\<rparr>,
      \<lparr>description = ''Bus'', amount = Fin 2, category = ''Transport'',
       paymentMethod = ''Cash'', date = ''2024-05-03'', notes' = None, expense_id = 2\<rparr>,
      \<lparr>description = ''Iced COFFEE'', amount = Fin 3, category = ''Food'',
       paymentMethod = ''Card'', date = ''2024-06-01'', notes' = Some ''treat'',
       expense_id = 3\<rparr>]"

text \<open>A list of one expense with a given amount.\<close>

definition single_expense :: "number \<Rightarrow> nat expense list" where
  "single_expense x =
     [\<lparr>description = ''Rent'', amount = x, category = ''Housing'', paymentMethod = ''Card'',
       date = ''2024-05-01'', notes' = None, expense_id = 1\<rparr>]"

text \<open>
  Three expenses of 0.1, 0.2 and 0.3, the amounts being the binary64 numbers nearest to
  these decimals, as the form records them.
\<close>

definition rounding_expenses :: "nat expense list" where
  "rounding_expenses =
     [\<lparr>description = ''Bus'', amount = round_double (1 / 10), category = ''Transport'',
       paymentMethod = ''Cash'', date = ''2024-05-02'', notes' = None, expense_id = 1\<rparr>,
      \<lparr>description = ''Gum'', amount = round_double (2 / 10), category = ''Food'',
       paymentMethod = ''Cash'', date = ''2024-05-03'', notes' = None, expense_id = 2\<rparr>,
      \<lparr>description = ''Roll'', amount = round_double (3 / 10), category = ''Food'',
       paymentMethod = ''Cash'', date = ''2024-05-04'', notes' = None, expense_id = 3\<rparr>]"

text \<open>Two form states, a white space predicate and the value of \<open>parseFloat\<close> on some inputs.\<close>

definition example_form :: ExpenseFormState where
  "example_form =
     \<lparr>form_description = '' Tea '', form_amount = ''0.125'', form_category = ''Food'',
      form_paymentMethod = ''Cash'', form_date = ''2024-05-02'', form_notes = ''  ''\<rparr>"

definition is_space :: "char \<Rightarrow> bool" where
  "is_space c = (c = CHR '' '')"

definition second_form :: ExpenseFormState where
  "second_form =
     \<lparr>form_description = ''Rent'', form_amount = ''Infinity'', form_category = ''Housing'',
      form_paymentMethod = ''Card'', form_date = ''2024-05-01'', form_notes = '' for May''\<rparr>"

definition example_parseFloat :: "string \<Rightarrow> number" where
  "example_parseFloat s =
     (if s = ''0.125'' then Fin (1 / 8) else if s = ''-3'' then Fin (- 3)
      else if s = ''Infinity'' then PosInf else NaN)"

section \<open>Properties of rounding\<close>

text \<open>
  The exponent found by \<open>ilog2\<close> is the binary exponent. Rounding moves a value by at most
  half a unit in the last place, leaves a binary64 number as it is, and yields multiples of
  the smallest subnormal number \<open>2 powi (- 1074)\<close>; it never turns a non-zero multiple of
  that number into zero, so the sign of a difference of two binary64 numbers is exact.
\<close>

lemma pow2_pos: "0 < (2::rat) powi e"
  by simp

lemma pow2_mono: "a \<le> b \<Longrightarrow> (2::rat) powi a \<le> 2 powi b"
  by (rule power_int_increasing) simp_all

lemma pow2_strict_mono: "a < b \<Longrightarrow> (2::rat) powi a < 2 powi b"
  by (rule power_int_strict_increasing) simp_all

lemma pow2_add: "(2::rat) powi (a + b) = 2 powi a * 2 powi b"
  by (rule power_int_add) simp

lemma pow2_add_eq: "a + b = c \<Longrightarrow> (2::rat) powi a * 2 powi b = 2 powi c"
  using pow2_add [of a b] by simp

lemma pow2_diff_eq: "a - b = c \<Longrightarrow> (2::rat) powi a / 2 powi b = 2 powi c"
  using power_int_diff [of "2::rat" a b] by simp

lemma pow2_of_nat: "0 \<le> k \<Longrightarrow> (2::rat) powi k = of_int (2 ^ nat k)"
  by (simp add: power_int_nonneg_exp)

lemma ilog2_bounds:
  assumes "0 < q"
  shows "2 powi ilog2 q \<le> q" and "q < 2 powi (ilog2 q + 1)"
proof -
  obtain n d where nd: "quotient_of q = (n, d)" by (cases "quotient_of q")
  have d: "0 < d" using nd by (rule quotient_of_denom_pos)
  have q: "q = of_int n / of_int d" using nd by (rule quotient_of_div)
  have n: "0 < n"
    using assms d by (simp add: q zero_less_divide_iff)
  define bn where "bn = bitlen n"
  define bd where "bd = bitlen d"
  have bn1: "1 \<le> bn" using n by (simp add: bn_def bitlen_alt_def)
  have bd1: "1 \<le> bd" using d by (simp add: bd_def bitlen_alt_def)
  from bitlen_bounds [OF n] have "(2::int) ^ nat (bn - 1) \<le> n" "n < 2 ^ nat bn"
    by (simp_all add: bn_def)
  then have "(of_int (2 ^ nat (bn - 1)) :: rat) \<le> of_int n" "(of_int n :: rat) < of_int (2 ^ nat bn)"
    by (simp_all only: of_int_le_iff of_int_less_iff)
  then have nb: "2 powi (bn - 1) \<le> (of_int n :: rat)" "(of_int n :: rat) < 2 powi bn"
    using bn1 by (simp_all add: pow2_of_nat)
  from bitlen_bounds [OF d] have "(2::int) ^ nat (bd - 1) \<le> d" "d < 2 ^ nat bd"
    by (simp_all add: bd_def)
  then have "(of_int (2 ^ nat (bd - 1)) :: rat) \<le> of_int d" "(of_int d :: rat) < of_int (2 ^ nat bd)"
    by (simp_all only: of_int_le_iff of_int_less_iff)
  then have db: "2 powi (bd - 1) \<le> (of_int d :: rat)" "(of_int d :: rat) < 2 powi bd"
    using bd1 by (simp_all add: pow2_of_nat)
  have dpos: "0 < (of_int d :: rat)" using d by simp
  define k where "k = bn - bd"
  have "q * of_int d = of_int n" using dpos by (simp add: q)
  have up: "q < 2 powi (k + 1)"
  proof -
    have "(of_int n :: rat) < 2 powi (k + 1) * 2 powi (bd - 1)"
      using nb(2) by (simp add: k_def flip: pow2_add)
    also have "\<dots> \<le> 2 powi (k + 1) * of_int d"
      using db(1) by (intro mult_left_mono) simp_all
    finally show ?thesis using dpos by (simp add: q pos_divide_less_eq)
  qed
  have lo: "2 powi (k - 1) < q"
  proof -
    have "(2::rat) powi (k - 1) * of_int d < 2 powi (k - 1) * 2 powi bd"
      using db(2) by (intro mult_strict_left_mono) simp_all
    also have "\<dots> = 2 powi (bn - 1)"
      by (simp add: k_def flip: pow2_add)
    also have "\<dots> \<le> of_int n" by (rule nb(1))
    finally show ?thesis using dpos by (simp add: q pos_less_divide_eq)
  qed
  have il: "ilog2 q = (if 2 powi k \<le> q then k else k - 1)"
    by (simp add: ilog2_def nd k_def bn_def bd_def Let_def)
  show "2 powi ilog2 q \<le> q" using lo by (simp add: il)
  show "q < 2 powi (ilog2 q + 1)" using up by (simp add: il not_le)
qed

lemma ilog2_unique:
  assumes "2 powi e \<le> q" and "q < 2 powi (e + 1)"
  shows "ilog2 q = e"
proof -
  have "0 < q" using assms(1) pow2_pos [of e] by linarith
  note b = ilog2_bounds [OF this]
  have "\<not> e + 1 \<le> ilog2 q"
  proof
    assume "e + 1 \<le> ilog2 q"
    then have "(2::rat) powi (e + 1) \<le> 2 powi ilog2 q" by (rule pow2_mono)
    with b(1) assms(2) show False by linarith
  qed
  moreover have "\<not> ilog2 q + 1 \<le> e"
  proof
    assume "ilog2 q + 1 \<le> e"
    then have "(2::rat) powi (ilog2 q + 1) \<le> 2 powi e" by (rule pow2_mono)
    with b(2) assms(1) show False by linarith
  qed
  ultimately show ?thesis by linarith
qed

lemma round_half_even_of_int: "round_half_even (of_int m) = m"
  by (simp add: round_half_even_def)

lemma round_half_even_ge:
  assumes "of_int n \<le> x"
  shows "n \<le> round_half_even x"
proof -
  have "n \<le> \<lfloor>x\<rfloor>" using assms by (simp add: le_floor_iff)
  then show ?thesis by (simp add: round_half_even_def Let_def)
qed

lemma round_half_even_le:
  assumes "x \<le> of_int n"
  shows "round_half_even x \<le> n"
proof -
  have f: "\<lfloor>x\<rfloor> \<le> n" using assms by (simp add: floor_le_iff)
  have up: "\<lfloor>x\<rfloor> + 1 \<le> n" if "\<not> x - of_int \<lfloor>x\<rfloor> < 1 / 2"
  proof -
    from that have "of_int \<lfloor>x\<rfloor> < x" by linarith
    with assms have "(of_int \<lfloor>x\<rfloor> :: rat) < of_int n" by linarith
    then have "\<lfloor>x\<rfloor> < n" by (simp only: of_int_less_iff)
    then show ?thesis by linarith
  qed
  show ?thesis using f up by (simp add: round_half_even_def Let_def)
qed

lemma round_double_pos:
  assumes "0 < q"
  shows "round_double q =
    (let e = max (ilog2 q) (- 1022); ulp = (2::rat) powi (e - 52);
         r = of_int (round_half_even (q / ulp)) * ulp
     in if 2 powi 1024 \<le> r then PosInf else Fin r)"
  using assms by (simp add: round_double_def Let_def)

lemma round_double_minus: "round_double (- q) = js_neg (round_double q)"
  by (simp add: round_double_def Let_def)

lemma round_double_pos_cases:
  assumes "0 < q"
  obtains "round_double q = PosInf"
  | m e where "round_double q = Fin (of_int m * 2 powi (e - 52))" "0 \<le> m" "- 1022 \<le> e"
      "e = max (ilog2 q) (- 1022)" "m = round_half_even (q / 2 powi (e - 52))"
proof -
  define e where "e = max (ilog2 q) (- 1022)"
  define m where "m = round_half_even (q / 2 powi (e - 52))"
  have "0 \<le> q / 2 powi (e - 52)" using assms by simp
  then have "of_int 0 \<le> q / 2 powi (e - 52)" by simp
  then have m0: "0 \<le> m" unfolding m_def by (rule round_half_even_ge)
  have e: "- 1022 \<le> e" by (simp add: e_def)
  have "round_double q = (if (2::rat) powi 1024 \<le> of_int m * 2 powi (e - 52) then PosInf
      else Fin (of_int m * 2 powi (e - 52)))"
    by (simp add: round_double_pos [OF assms] Let_def e_def m_def)
  then show thesis using that m0 e e_def m_def by (cases "(2::rat) powi 1024 \<le> of_int m * 2 powi (e - 52)") auto
qed

lemma grid_step:
  assumes "- 1022 \<le> e"
  shows "(of_int m * 2 powi (e - 52) :: rat) * 2 ^ 1074 \<in> \<int>"
proof -
  have "(2::rat) powi (e - 52) * 2 ^ 1074 = 2 powi (e - 52) * 2 powi 1074" by simp
  also have "\<dots> = 2 powi (e + 1022)" by (rule pow2_add_eq) simp
  also have "\<dots> = of_int (2 ^ nat (e + 1022))" using assms by (intro pow2_of_nat) simp
  finally have "(of_int m * 2 powi (e - 52) :: rat) * 2 ^ 1074 = of_int (m * 2 ^ nat (e + 1022))"
    by (simp add: mult.assoc)
  then show ?thesis by (simp only: Ints_of_int)
qed

lemma round_double_grid:
  assumes "round_double q = Fin r"
  shows "r * 2 ^ 1074 \<in> \<int>"
proof -
  consider "q = 0" | "0 < q" | "0 < - q" by linarith
  then show ?thesis
  proof cases
    case 1
    with assms show ?thesis by (simp add: round_double_def)
  next
    case 2
    then show ?thesis
    proof (cases rule: round_double_pos_cases)
      case 1
      with assms show ?thesis by simp
    next
      case (2 m e)
      with assms have "r = of_int m * 2 powi (e - 52)" by simp
      then show ?thesis using grid_step [OF 2(3)] by simp
    qed
  next
    case 3
    then show ?thesis
    proof (cases rule: round_double_pos_cases)
      case 1
      then have "round_double q = NegInf"
        by (cases "round_double q") (simp_all add: round_double_minus)
      with assms show ?thesis by simp
    next
      case (2 m e)
      with assms have "- r = of_int m * 2 powi (e - 52)"
        by (simp add: round_double_minus)
      then have "(- r) * 2 ^ 1074 \<in> \<int>" using grid_step [OF 2(3)] by simp
      then have "- (r * 2 ^ 1074) \<in> \<int>" by simp
      then show ?thesis by (simp only: minus_in_Ints_iff)
    qed
  qed
qed

lemma round_double_sign:
  assumes "q * 2 ^ 1074 \<in> \<int>"
  shows "js_lt (Fin 0) (round_double q) \<longleftrightarrow> 0 < q"
proof -
  consider "q = 0" | "0 < q" | "0 < - q" by linarith
  then show ?thesis
  proof cases
    case 1
    then show ?thesis by (simp add: round_double_def)
  next
    case 2
    then show ?thesis
    proof (cases rule: round_double_pos_cases)
      case 1
      with 2 show ?thesis by simp
    next
      case (2 m e)
      from assms obtain k :: int where k: "q * 2 ^ 1074 = of_int k" by (auto elim: Ints_cases)
      have "0 < q * 2 ^ 1074" using \<open>0 < q\<close> by simp
      then have "(0::rat) < of_int k" unfolding k .
      then have "1 \<le> k" by simp
      then have "(1::rat) \<le> of_int k" by simp
      then have "1 \<le> q * 2 ^ 1074" unfolding k .
      then have "1 / 2 ^ 1074 \<le> q" by (simp only: pos_divide_le_eq zero_less_power zero_less_numeral)
      moreover have "(2::rat) powi (- 1074) = 1 / 2 ^ 1074"
        by (simp only: power_int_minus_divide power_int_numeral)
      ultimately have qmin: "2 powi (- 1074) \<le> q" by (simp only:)
      have "2 powi (e - 52) \<le> q"
      proof (cases "- 1022 \<le> ilog2 q")
        case True
        then have "e = ilog2 q" using 2(4) by simp
        then have "(2::rat) powi (e - 52) \<le> 2 powi ilog2 q" by (intro pow2_mono) simp
        also have "\<dots> \<le> q" using \<open>0 < q\<close> by (rule ilog2_bounds)
        finally show ?thesis .
      next
        case False
        then have "e = - 1022" using 2(4) by simp
        then show ?thesis using qmin by simp
      qed
      then have "of_int 1 \<le> q / 2 powi (e - 52)" by (simp add: pos_le_divide_eq)
      then have "1 \<le> m" unfolding 2(5) by (rule round_half_even_ge)
      then have "(0::rat) < of_int m" by simp
      then have "(0::rat) < of_int m * 2 powi (e - 52)" by (intro mult_pos_pos) simp_all
      with 2(1) \<open>0 < q\<close> show ?thesis by simp
    qed
  next
    case 3
    then show ?thesis
    proof (cases rule: round_double_pos_cases)
      case 1
      then have "round_double q = NegInf"
        by (cases "round_double q") (simp_all add: round_double_minus)
      with 3 show ?thesis by simp
    next
      case (2 m e)
      then have "round_double q = Fin (- (of_int m * 2 powi (e - 52)))"
        by (cases "round_double q") (simp_all add: round_double_minus)
      moreover have "(0::rat) \<le> of_int m * 2 powi (e - 52)" using 2(2) by simp
      ultimately show ?thesis using 3 by simp
    qed
  qed
qed

lemma round_double_eval:
  assumes "2 powi e \<le> q" and "q < 2 powi (e + 1)" and "- 1022 \<le> e" and "e \<le> 1022"
  shows "round_double q = Fin (of_int (round_half_even (q / 2 powi (e - 52))) * 2 powi (e - 52))"
proof -
  have q: "0 < q" using assms(1) pow2_pos [of e] by linarith
  have il: "ilog2 q = e" using assms(1,2) by (rule ilog2_unique)
  define m where "m = round_half_even (q / 2 powi (e - 52))"
  have "q / 2 powi (e - 52) < 2 powi (e + 1) / 2 powi (e - 52)"
    using assms(2) by (simp add: divide_strict_right_mono)
  also have "\<dots> = 2 powi 53" by (rule pow2_diff_eq) simp
  finally have "q / 2 powi (e - 52) \<le> of_int (2 ^ 53)" by simp
  then have "m \<le> 2 ^ 53" unfolding m_def by (rule round_half_even_le)
  then have "(of_int m :: rat) \<le> of_int (2 ^ 53)" by (simp only: of_int_le_iff)
  then have "(of_int m :: rat) \<le> 2 powi 53" by simp
  then have "of_int m * 2 powi (e - 52) \<le> (2::rat) powi 53 * 2 powi (e - 52)"
    by (intro mult_right_mono) simp_all
  also have "\<dots> = 2 powi (e + 1)" by (rule pow2_add_eq) simp
  also have "\<dots> < 2 powi 1024" using assms(4) by (intro pow2_strict_mono) simp
  finally have "\<not> 2 powi 1024 \<le> (of_int m :: rat) * 2 powi (e - 52)" by simp
  then show ?thesis
    using assms(3) by (simp add: round_double_pos [OF q] il Let_def m_def max_def)
qed

lemma round_half_even_error: "\<bar>of_int (round_half_even x) - x\<bar> \<le> 1 / 2"
proof -
  have "of_int \<lfloor>x\<rfloor> \<le> x" "x < of_int \<lfloor>x\<rfloor> + 1" by linarith+
  then show ?thesis by (auto simp: round_half_even_def Let_def abs_le_iff)
qed

lemma round_double_error:
  assumes "2 powi e \<le> q" and "q < 2 powi (e + 1)" and "- 1022 \<le> e" and "e \<le> 1022"
  shows "\<exists>r. round_double q = Fin r \<and> \<bar>r - q\<bar> \<le> 2 powi (e - 53)"
proof -
  define u :: rat where "u = 2 powi (e - 52)"
  define m where "m = round_half_even (q / u)"
  have u: "0 < u" by (simp add: u_def)
  have half: "(2::rat) powi (e - 53) = u * (1 / 2)"
    unfolding u_def using pow2_add_eq [of "e - 52" "- 1" "e - 53"]
    by (simp add: power_int_minus_divide)
  have r: "round_double q = Fin (of_int m * u)"
    unfolding m_def u_def using assms by (rule round_double_eval)
  have "of_int m * u - q = (of_int m - q / u) * u" using u by (simp add: left_diff_distrib)
  then have "\<bar>of_int m * u - q\<bar> = \<bar>of_int m - q / u\<bar> * u"
    using u by (simp only: abs_mult abs_of_pos)
  also have "\<dots> \<le> (1 / 2) * u"
    unfolding m_def using u by (intro mult_right_mono round_half_even_error) simp
  finally have "\<bar>of_int m * u - q\<bar> \<le> 2 powi (e - 53)" by (simp add: half)
  with r show ?thesis by blast
qed

lemma double_ge_2_53_integer:
  assumes "round_double q = Fin q" and "2 ^ 53 \<le> q"
  shows "q \<in> \<int>"
proof -
  have q: "0 < q" using assms(2) by (rule less_le_trans [rotated]) simp
  then show ?thesis
  proof (cases rule: round_double_pos_cases)
    case 1
    with assms show ?thesis by simp
  next
    case (2 m e)
    with assms have eq: "q = of_int m * 2 powi (e - 52)" by simp
    have "\<not> ilog2 q + 1 \<le> 53"
    proof
      assume "ilog2 q + 1 \<le> 53"
      then have "(2::rat) powi (ilog2 q + 1) \<le> 2 powi 53" by (rule pow2_mono)
      with ilog2_bounds(2) [OF q] assms(2) show False by simp
    qed
    then have "53 \<le> e" using 2(4) by simp
    then have "(2::rat) powi (e - 52) = of_int (2 ^ nat (e - 52))" by (intro pow2_of_nat) simp
    then have "q = of_int (m * 2 ^ nat (e - 52))" using eq by simp
    then show ?thesis by (metis Ints_of_int)
  qed
qed

lemma round_half_even_near:
  assumes "\<bar>x - of_int m\<bar> < 1 / 2"
  shows "round_half_even x = m"
proof (cases "of_int m \<le> x")
  case True
  with assms have "x < of_int m + 1" by linarith
  with True have f: "\<lfloor>x\<rfloor> = m" by (simp add: floor_unique)
  with assms True show ?thesis by (simp add: round_half_even_def Let_def)
next
  case False
  with assms have "of_int (m - 1) \<le> x" "x < of_int (m - 1) + 1" by simp_all
  then have f: "\<lfloor>x\<rfloor> = m - 1" by (rule floor_unique)
  have "1 / 2 < x - of_int (m - 1)" using assms False by simp
  then show ?thesis by (simp add: round_half_even_def Let_def f)
qed

lemma round_half_even_tie:
  "round_half_even (of_int m + 1 / 2) = (if even m then m else m + 1)"
proof -
  have "\<lfloor>(of_int m + 1 / 2 :: rat)\<rfloor> = m" by (rule floor_unique) simp_all
  then show ?thesis by (simp add: round_half_even_def Let_def)
qed

lemma round_double_near:
  assumes "2 powi e \<le> q" and "q < 2 powi (e + 1)" and "- 1022 \<le> e" and "e \<le> 1022"
    and "\<bar>q - of_int m * 2 powi (e - 52)\<bar> < 2 powi (e - 53)"
  shows "round_double q = Fin (of_int m * 2 powi (e - 52))"
proof -
  have half: "(2::rat) powi (e - 53) = 2 powi (e - 52) * (1 / 2)"
    using pow2_add_eq [of "e - 52" "- 1" "e - 53"] by (simp add: power_int_minus_divide)
  define u :: rat where "u = 2 powi (e - 52)"
  have u: "0 < u" by (simp add: u_def)
  have "q / u - of_int m = (q - of_int m * u) / u"
    using u by (simp add: diff_divide_distrib)
  then have "\<bar>q / u - of_int m\<bar> = \<bar>q - of_int m * u\<bar> / u"
    using u by (simp only: abs_divide abs_of_pos)
  also have "\<dots> < 1 / 2"
    using assms(5) u by (simp add: half pos_divide_less_eq mult.commute flip: u_def)
  finally have "round_half_even (q / 2 powi (e - 52)) = m"
    unfolding u_def by (rule round_half_even_near)
  with round_double_eval [OF assms(1-4)] show ?thesis by simp
qed

lemma round_double_tie:
  assumes "2 powi e \<le> q" and "q < 2 powi (e + 1)" and "- 1022 \<le> e" and "e \<le> 1022"
    and "q = (of_int m + 1 / 2) * 2 powi (e - 52)"
  shows "round_double q = Fin (of_int (if even m then m else m + 1) * 2 powi (e - 52))"
proof -
  have "q / 2 powi (e - 52) = of_int m + 1 / 2" by (simp add: assms(5))
  then have "round_half_even (q / 2 powi (e - 52)) = (if even m then m else m + 1)"
    by (simp only: round_half_even_tie)
  with round_double_eval [OF assms(1-4)] show ?thesis by simp
qed

lemma round_double_idem:
  assumes "round_double q = Fin r"
  shows "round_double r = Fin r"
proof -
  have pos: "round_double r = Fin r" if q: "0 < q" and qr: "round_double q = Fin r" for q r
    using q
  proof (cases rule: round_double_pos_cases)
    case 1
    with qr show ?thesis by simp
  next
    case (2 m e)
    define u :: rat where "u = 2 powi (e - 52)"
    have u: "0 < u" by (simp add: u_def)
    have r: "r = of_int m * u" using 2(1) qr by (simp add: u_def)
    have m_def: "m = round_half_even (q / u)" using 2(5) by (simp add: u_def)
    have small: "r < 2 powi 1024"
      using q qr by (simp add: round_double_pos Let_def split: if_splits)
    show ?thesis
    proof (cases "m = 0")
      case True
      then show ?thesis by (simp add: r round_double_def)
    next
      case False
      with 2(2) have m1: "1 \<le> m" by simp
      then have rpos: "0 < r" using u by (simp add: r)
      have qlt: "q < 2 powi (ilog2 q + 1)" using q by (rule ilog2_bounds)
      have "ilog2 q \<le> e" using 2(4) by simp
      then have "(2::rat) powi (ilog2 q + 1) \<le> 2 powi (e + 1)" by (intro pow2_mono) simp
      with qlt have "q < 2 powi (e + 1)" by simp
      then have "q / u < 2 powi (e + 1) / u" using u by (simp add: divide_strict_right_mono)
      also have "\<dots> = 2 powi 53" unfolding u_def by (rule pow2_diff_eq) simp
      finally have "q / u \<le> of_int (2 ^ 53)" by simp
      then have "m \<le> 2 ^ 53" unfolding m_def by (rule round_half_even_le)
      then have mle: "(of_int m :: rat) \<le> 2 powi 53"
        by (metis of_int_le_iff of_int_numeral of_int_power power_int_numeral)
      have up: "r \<le> 2 powi (e + 1)"
      proof -
        have "r \<le> 2 powi 53 * u" unfolding r using mle u by (intro mult_right_mono) simp_all
        also have "\<dots> = 2 powi (e + 1)" unfolding u_def by (rule pow2_add_eq) simp
        finally show ?thesis .
      qed
      have same: "round_double r = Fin r" if "max (ilog2 r) (- 1022) = e"
      proof -
        have "r / u = of_int m" using u by (simp add: r)
        then have rh: "round_half_even (r / u) = m" by (simp only: round_half_even_of_int)
        have "round_double r =
            (if (2::rat) powi 1024 \<le> of_int m * u then PosInf else Fin (of_int m * u))"
          by (simp only: round_double_pos [OF rpos] Let_def that rh flip: u_def)
        moreover have "\<not> (2::rat) powi 1024 \<le> of_int m * u"
          using small unfolding r by (simp only: not_le)
        ultimately show ?thesis unfolding r by (simp only: if_False)
      qed
      show ?thesis
      proof (cases "r = 2 powi (e + 1)")
        case True
        then have il: "ilog2 r = e + 1"
          by (intro ilog2_unique) (simp_all add: pow2_strict_mono)
        have e1: "max (e + 1) (- 1022) = e + 1" using 2(3) by simp
        have "r / 2 powi (e + 1 - 52) = 2 powi 52"
          unfolding True by (rule pow2_diff_eq) simp
        then have "r / 2 powi (e + 1 - 52) = of_int (2 ^ 52)" by simp
        then have "round_half_even (r / 2 powi (e + 1 - 52)) = 2 ^ 52"
          by (simp only: round_half_even_of_int)
        moreover have "of_int (2 ^ 52) * 2 powi (e + 1 - 52) = r"
          unfolding True using pow2_add_eq [of 52 "e + 1 - 52" "e + 1"] by simp
        ultimately show ?thesis
          using small by (simp add: round_double_pos [OF rpos] Let_def il e1)
      next
        case False
        with up have lt: "r < 2 powi (e + 1)" by simp
        show ?thesis
        proof (cases "2 powi e \<le> r")
          case True
          then have "ilog2 r = e" using lt by (rule ilog2_unique)
          then show ?thesis using 2(3) by (intro same) simp
        next
          case False
          then have rlt: "r < 2 powi e" by simp
          have "\<not> e \<le> ilog2 r"
          proof
            assume "e \<le> ilog2 r"
            then have "(2::rat) powi e \<le> 2 powi ilog2 r" by (rule pow2_mono)
            with ilog2_bounds(1) [OF rpos] rlt show False by simp
          qed
          then have ilr: "ilog2 r < e" by simp
          have "e = - 1022"
          proof (rule ccontr)
            assume "e \<noteq> - 1022"
            then have eq: "e = ilog2 q" using 2(4) by (simp add: max_def split: if_splits)
            have "2 powi e \<le> q" unfolding eq using q by (rule ilog2_bounds)
            then have "2 powi e / u \<le> q / u" using u by (simp add: divide_right_mono)
            moreover have "2 powi e / u = 2 powi 52" unfolding u_def by (rule pow2_diff_eq) simp
            ultimately have "of_int (2 ^ 52) \<le> q / u" by simp
            then have "2 ^ 52 \<le> m" unfolding m_def by (rule round_half_even_ge)
            then have "(2::rat) powi 52 \<le> of_int m"
              by (metis of_int_le_iff of_int_numeral of_int_power power_int_numeral)
            then have "2 powi 52 * u \<le> r" unfolding r using u by (intro mult_right_mono) simp_all
            moreover have "2 powi 52 * u = 2 powi e" unfolding u_def by (rule pow2_add_eq) simp
            ultimately show False using rlt by simp
          qed
          with ilr show ?thesis by (intro same) simp
        qed
      qed
    qed
  qed
  consider "q = 0" | "0 < q" | "0 < - q" by linarith
  then show ?thesis
  proof cases
    case 1
    with assms show ?thesis by (simp add: round_double_def)
  next
    case 2
    then show ?thesis using assms by (rule pos)
  next
    case 3
    have "round_double (- q) = Fin (- r)" using assms by (simp add: round_double_minus)
    with 3 have "round_double (- r) = Fin (- r)" by (rule pos)
    then show ?thesis by (cases "round_double r") (simp_all add: round_double_minus)
  qed
qed

lemma is_double_round_double: "is_double (round_double q)"
  by (cases "round_double q") (simp_all add: round_double_idem)

lemma is_double_js_add: "is_double (js_add x y)"
  by (cases x; cases y) (simp_all add: is_double_round_double)


lemma is_double_grid:
  assumes "is_double (Fin r)"
  shows "r * 2 ^ 1074 \<in> \<int>"
proof -
  from assms have "round_double r = Fin r" by (simp only: is_double.simps)
  then show ?thesis by (rule round_double_grid)
qed

lemma round_double_rel_error:
  assumes "q * 2 ^ 1074 \<in> \<int>" and "round_double q = Fin r"
  shows "\<bar>r - q\<bar> \<le> \<bar>q\<bar> / 2 ^ 53"
proof -
  have pos: "\<bar>r - q\<bar> \<le> q / 2 ^ 53"
    if q: "0 < q" and grid: "q * 2 ^ 1074 \<in> \<int>" and qr: "round_double q = Fin r" for q r
    using q
  proof (cases rule: round_double_pos_cases)
    case 1
    with qr show ?thesis by simp
  next
    case (2 m e)
    define u :: rat where "u = 2 powi (e - 52)"
    have u: "0 < u" by (simp add: u_def)
    have r: "r = of_int m * u" using 2(1) qr by (simp add: u_def)
    have m: "m = round_half_even (q / u)" using 2(5) by (simp add: u_def)
    show ?thesis
    proof (cases "- 1022 \<le> ilog2 q")
      case True
      then have e: "e = ilog2 q" using 2(4) by simp
      have "r - q = (of_int m - q / u) * u" using u by (simp add: r left_diff_distrib)
      then have "\<bar>r - q\<bar> = \<bar>of_int m - q / u\<bar> * u"
        using u by (simp only: abs_mult abs_of_pos)
      also have "\<dots> \<le> (1 / 2) * u"
        unfolding m using u by (intro mult_right_mono round_half_even_error) simp
      also have "(1 / 2) * u = 2 powi e / 2 ^ 53"
      proof -
        have "(2::rat) powi e / 2 powi 53 = 2 powi (e - 53)" by (rule pow2_diff_eq) simp
        moreover have "(2::rat) powi (e - 52) * 2 powi (- 1) = 2 powi (e - 53)"
          by (rule pow2_add_eq) simp
        ultimately show ?thesis by (simp add: u_def power_int_minus_divide)
      qed
      also have "\<dots> \<le> q / 2 ^ 53"
        unfolding e using ilog2_bounds(1) [OF q] by (simp add: divide_right_mono)
      finally show ?thesis .
    next
      case False
      then have e: "e = - 1022" using 2(4) by simp
      from grid obtain k :: int where k: "q * 2 ^ 1074 = of_int k" by (auto elim: Ints_cases)
      have "- 1022 - 52 = (- 1074 :: int)" by simp
      then have "u = 2 powi (- 1074)" unfolding u_def e by (simp only:)
      then have u': "u = 1 / 2 ^ 1074"
        by (simp only: power_int_minus_divide power_int_numeral)
      have gen: "x / (1 / y) = x * y" for x y :: rat by simp
      have "q / u = q * 2 ^ 1074" unfolding u' by (rule gen)
      then have "q / u = of_int k" unfolding k .
      then have "m = k" unfolding m by (simp only: round_half_even_of_int)
      then have "r = (q / u) * u" unfolding r \<open>q / u = of_int k\<close> by simp
      then have "r = q" using u by simp
      then show ?thesis using q by simp
    qed
  qed
  consider "q = 0" | "0 < q" | "0 < - q" by linarith
  then show ?thesis
  proof cases
    case 1
    with assms(2) show ?thesis by (simp add: round_double_def)
  next
    case 2
    with pos [OF 2 assms] show ?thesis by simp
  next
    case 3
    have "(- q) * 2 ^ 1074 \<in> \<int>" using assms(1) by simp
    moreover have "round_double (- q) = Fin (- r)" using assms(2) by (simp add: round_double_minus)
    ultimately have "\<bar>- r - (- q)\<bar> \<le> (- q) / 2 ^ 53" using 3 by (intro pos)
    moreover have "\<bar>- r - (- q)\<bar> = \<bar>r - q\<bar>" by simp
    ultimately show ?thesis using 3 by simp
  qed
qed

lemma js_add_rel_error:
  assumes "is_double (Fin a)" and "is_double (Fin b)" and "js_add (Fin a) (Fin b) = Fin r"
  shows "\<bar>r - (a + b)\<bar> \<le> \<bar>a + b\<bar> / 2 ^ 53"
proof -
  have "a * 2 ^ 1074 \<in> \<int>" using assms(1) by (rule is_double_grid)
  moreover have "b * 2 ^ 1074 \<in> \<int>" using assms(2) by (rule is_double_grid)
  ultimately have "a * 2 ^ 1074 + b * 2 ^ 1074 \<in> \<int>" by (intro Ints_add)
  then have "(a + b) * 2 ^ 1074 \<in> \<int>" by (simp only: distrib_right)
  moreover have "round_double (a + b) = Fin r" using assms(3) by simp
  ultimately show ?thesis by (rule round_double_rel_error)
qed

lemma subtraction_sign:
  assumes "is_double a" and "is_double b" and "a \<noteq> NaN" and "b \<noteq> NaN"
  shows "js_lt (Fin 0) (js_sub b a) \<longleftrightarrow> js_lt a b"
proof (cases a; cases b)
  fix x y
  assume ab: "a = Fin x" "b = Fin y"
  with assms have d: "is_double (Fin x)" "is_double (Fin y)" by simp_all
  have "x * 2 ^ 1074 \<in> \<int>" using d(1) by (rule is_double_grid)
  moreover have "y * 2 ^ 1074 \<in> \<int>" using d(2) by (rule is_double_grid)
  ultimately have "y * 2 ^ 1074 - x * 2 ^ 1074 \<in> \<int>" by (intro Ints_diff)
  then have "(y - x) * 2 ^ 1074 \<in> \<int>" by (simp only: left_diff_distrib)
  then have "js_lt (Fin 0) (round_double (y - x)) \<longleftrightarrow> 0 < y - x"
    by (rule round_double_sign)
  then show ?thesis by (simp add: ab js_sub_def)
qed (use assms in \<open>simp_all add: js_sub_def\<close>)

lemma js_le_refl: "x \<noteq> NaN \<Longrightarrow> js_le x x"
  by (cases x) simp_all

lemma js_le_trans: "js_le x y \<Longrightarrow> js_le y z \<Longrightarrow> js_le x z"
  by (cases x; cases y; cases z) simp_all

lemma js_lt_imp_le: "js_lt x y \<Longrightarrow> js_le x y"
  by (cases x; cases y) simp_all

lemma not_js_lt_imp_le: "x \<noteq> NaN \<Longrightarrow> y \<noteq> NaN \<Longrightarrow> \<not> js_lt x y \<Longrightarrow> js_le y x"
  by (cases x; cases y) simp_all

section \<open>Sorting\<close>

text \<open>
  Sorting entries by \<open>b - a\<close> on their values puts an entry with a greatest value first,
  provided no value is \<open>NaN\<close>.
\<close>

lemma mset_sort_insert: "mset (sort_insert cmp x ys) = add_mset x (mset ys)"
  by (induction ys) simp_all

lemma array_sort_Cons: "array_sort cmp (x # xs) = sort_insert cmp x (array_sort cmp xs)"
  by (simp add: array_sort_def)

lemma mset_array_sort: "mset (array_sort cmp xs) = mset xs"
  by (induction xs) (simp add: array_sort_def, simp add: array_sort_Cons mset_sort_insert)

lemma array_sort_head_greatest:
  assumes "xs \<noteq> []"
    and "\<And>k v. (k, v) \<in> set xs \<Longrightarrow> is_double v \<and> v \<noteq> NaN"
  shows "\<exists>k v rest. array_sort (\<lambda>(_, a) (_, b). js_sub b a) xs = (k, v) # rest \<and>
      (k, v) \<in> set xs \<and> (\<forall>(k', v') \<in> set xs. js_le v' v)"
  using assms
proof (induction xs)
  case Nil
  then show ?case by simp
next
  case (Cons x xs)
  obtain k v where x: "x = (k, v)" by (cases x)
  have v: "is_double v" "v \<noteq> NaN" using Cons.prems(2) [of k v] by (simp_all add: x)
  show ?case
  proof (cases "xs = []")
    case True
    then show ?thesis using v by (simp add: array_sort_def x js_le_refl)
  next
    case False
    moreover have "is_double v' \<and> v' \<noteq> NaN" if "(k', v') \<in> set xs" for k' v'
      using Cons.prems(2) [of k' v'] that by simp
    ultimately obtain k0 v0 rest where
      s: "array_sort (\<lambda>(_, a) (_, b). js_sub b a) xs = (k0, v0) # rest"
      and mem: "(k0, v0) \<in> set xs" and top: "\<forall>(k', v') \<in> set xs. js_le v' v0"
      using Cons.IH by blast
    have v0: "is_double v0" "v0 \<noteq> NaN" using Cons.prems(2) [of k0 v0] mem by simp_all
    have cmp: "js_lt (Fin 0) (js_sub v0 v) \<longleftrightarrow> js_lt v v0"
      using v v0 by (intro subtraction_sign)
    show ?thesis
    proof (cases "js_lt v v0")
      case True
      then have "js_le v v0" by (rule js_lt_imp_le)
      with True top mem show ?thesis
        by (auto simp: array_sort_Cons s x cmp)
    next
      case False
      then have le: "js_le v0 v" using v v0 by (intro not_js_lt_imp_le)
      have "\<forall>(k', v') \<in> set xs. js_le v' v"
        using top le by (auto intro: js_le_trans)
      with False v show ?thesis
        by (auto simp: array_sort_Cons s x cmp js_le_refl)
    qed
  qed
qed

section \<open>Strings\<close>

text \<open>
  \<open>string_includes\<close> is the substring relation. \<open>trim\<close> yields the empty string exactly
  for strings of white space; otherwise it cuts a white space prefix and a white space
  suffix off, and what is left neither starts nor ends with white space.
\<close>

lemma startsWith_iff: "startsWith h n \<longleftrightarrow> (\<exists>post. h = n @ post)"
  by (induction h n rule: startsWith.induct) auto

lemma string_includes_iff:
  "string_includes h n \<longleftrightarrow> (\<exists>pre post. h = pre @ n @ post)"
proof (induction h)
  case Nil
  then show ?case by simp
next
  case (Cons c cs)
  have "(\<exists>pre post. c # cs = pre @ n @ post) \<longleftrightarrow>
        (\<exists>post. c # cs = n @ post) \<or> (\<exists>pre post. cs = pre @ n @ post)"
  proof
    assume "\<exists>pre post. c # cs = pre @ n @ post"
    then obtain pre post where eq: "c # cs = pre @ n @ post" by blast
    show "(\<exists>post. c # cs = n @ post) \<or> (\<exists>pre post. cs = pre @ n @ post)"
    proof (cases pre)
      case Nil
      with eq show ?thesis by auto
    next
      case (Cons p ps)
      with eq have "cs = ps @ n @ post" by simp
      then show ?thesis by blast
    qed
  next
    assume "(\<exists>post. c # cs = n @ post) \<or> (\<exists>pre post. cs = pre @ n @ post)"
    then show "\<exists>pre post. c # cs = pre @ n @ post"
    proof
      assume "\<exists>post. c # cs = n @ post"
      then obtain post where "c # cs = [] @ n @ post" by auto
      then show ?thesis by blast
    next
      assume "\<exists>pre post. cs = pre @ n @ post"
      then obtain pre post where "c # cs = (c # pre) @ n @ post" by auto
      then show ?thesis by blast
    qed
  qed
  with Cons show ?case by (simp add: startsWith_iff)
qed

lemma trim_Nil_iff: "trim ws s = [] \<longleftrightarrow> (\<forall>c\<in>set s. ws c)"
proof
  assume "trim ws s = []"
  then have all: "\<forall>c\<in>set (dropWhile ws s). ws c"
    by (simp add: trim_def dropWhile_eq_Nil_conv)
  have "dropWhile ws s = []"
  proof (rule ccontr)
    assume ne: "dropWhile ws s \<noteq> []"
    then have "\<not> ws (hd (dropWhile ws s))" by (rule hd_dropWhile)
    moreover have "hd (dropWhile ws s) \<in> set (dropWhile ws s)" using ne by simp
    ultimately show False using all by blast
  qed
  then show "\<forall>c\<in>set s. ws c" by (simp add: dropWhile_eq_Nil_conv)
next
  assume "\<forall>c\<in>set s. ws c"
  then have d: "dropWhile ws s = []" by (simp add: dropWhile_eq_Nil_conv)
  show "trim ws s = []" unfolding trim_def d by simp
qed

lemma trim_decompose:
  "\<exists>pre post. s = pre @ trim ws s @ post \<and> (\<forall>c\<in>set pre. ws c) \<and> (\<forall>c\<in>set post. ws c)"
proof -
  define t where "t = dropWhile ws s"
  have s: "s = takeWhile ws s @ t" by (simp add: t_def)
  have "rev t = takeWhile ws (rev t) @ dropWhile ws (rev t)" by simp
  then have "t = rev (dropWhile ws (rev t)) @ rev (takeWhile ws (rev t))"
    by (metis rev_append rev_rev_ident)
  then have t: "t = trim ws s @ rev (takeWhile ws (rev t))" by (simp add: trim_def t_def)
  have "s = takeWhile ws s @ trim ws s @ rev (takeWhile ws (rev t))"
    using s t by simp
  moreover have "\<forall>c\<in>set (takeWhile ws s). ws c" by (auto dest: set_takeWhileD)
  moreover have "\<forall>c\<in>set (rev (takeWhile ws (rev t))). ws c" by (auto dest: set_takeWhileD)
  ultimately show ?thesis by blast
qed

lemma trim_ends:
  assumes "trim ws s \<noteq> []"
  shows "\<not> ws (hd (trim ws s))" and "\<not> ws (last (trim ws s))"
proof -
  define t where "t = dropWhile ws s"
  define r where "r = dropWhile ws (rev t)"
  have tr: "trim ws s = rev r" by (simp add: trim_def t_def r_def)
  with assms have r: "r \<noteq> []" by simp
  then have "\<not> ws (hd r)" unfolding r_def by (rule hd_dropWhile)
  then show "\<not> ws (last (trim ws s))" using r by (simp add: tr last_rev)
  have "rev t \<noteq> []" using r by (auto simp: r_def)
  then have t: "t \<noteq> []" by simp
  then have nh: "\<not> ws (hd t)" unfolding t_def by (rule hd_dropWhile)
  have "rev t = takeWhile ws (rev t) @ r" by (simp add: r_def)
  then have "t = rev r @ rev (takeWhile ws (rev t))" by (metis rev_append rev_rev_ident)
  then have "hd t = hd (rev r)" using r by (metis hd_append2 rev_is_Nil_conv)
  with nh show "\<not> ws (hd (trim ws s))" by (simp add: tr)
qed

section \<open>Totals and the breakdown by category\<close>

text \<open>
  The fields of \<open>totals\<close> one by one. After any list of expenses the object
  \<open>categories\<close> holds, for each category that occurs, the sum of the amounts of that
  category, and nothing else.
\<close>

lemma js_sum_from_foldl: "js_sum_from acc xs = foldl js_add acc xs"
  by (induction xs arbitrary: acc) simp_all

lemma total_sum_totals:
  "total_sum (totals fs) = foldl (\<lambda>sum expense. js_add sum (amount expense)) (Fin 0) fs"
  by (simp add: totals_def Let_def)

lemma total_sum_js_sum: "total_sum (totals fs) = js_sum (map amount fs)"
  by (simp add: total_sum_totals js_sum_def js_sum_from_foldl foldl_map)

lemma average_totals:
  "average (totals fs) =
     (if length fs = 0 then Fin 0 else js_div (total_sum (totals fs)) (Fin (of_nat (length fs))))"
  by (simp add: totals_def Let_def)

lemma js_sum_Nil: "js_sum [] = Fin 0"
  by (simp add: js_sum_def)

lemma js_sum_snoc: "js_sum (xs @ [x]) = js_add (js_sum xs) x"
  by (simp add: js_sum_def js_sum_from_foldl)

lemma is_double_js_sum: "is_double (js_sum xs)"
  by (induction xs rule: rev_induct)
    (simp_all add: js_sum_Nil js_sum_snoc is_double_js_add round_double_def)

lemma js_sum_snoc_Fin:
  assumes "js_sum (map Fin (qs @ [q])) = Fin t"
  obtains s where "js_sum (map Fin qs) = Fin s" and "js_add (Fin s) (Fin q) = Fin t"
proof -
  have "js_add (js_sum (map Fin qs)) (Fin q) = Fin t"
    using assms by (simp add: js_sum_snoc)
  then show thesis using that by (cases "js_sum (map Fin qs)") simp_all
qed

lemma js_sum_error:
  assumes "\<forall>q\<in>set qs. is_double (Fin q)" and "js_sum (map Fin qs) = Fin t"
  shows "\<bar>t - sum_list qs\<bar> \<le> ((1 + 1 / 2 ^ 53) ^ length qs - 1) * sum_list (map abs qs)"
  using assms
proof (induction qs arbitrary: t rule: rev_induct)
  case Nil
  then show ?case by (simp add: js_sum_Nil)
next
  case (snoc q qs)
  define U :: rat where "U = 1 + 1 / 2 ^ 53"
  define S where "S = sum_list qs"
  define A where "A = sum_list (map abs qs)"
  define k where "k = length qs"
  from snoc.prems(2) obtain s where s: "js_sum (map Fin qs) = Fin s"
    and add: "js_add (Fin s) (Fin q) = Fin t"
    by (rule js_sum_snoc_Fin)
  have ih: "\<bar>s - S\<bar> \<le> (U ^ k - 1) * A"
    unfolding U_def S_def A_def k_def using snoc.prems(1) s by (intro snoc.IH) simp_all
  have "is_double (js_sum (map Fin qs))" by (rule is_double_js_sum)
  then have ds: "is_double (Fin s)" by (simp only: s)
  have dq: "is_double (Fin q)" using snoc.prems(1) by simp
  have step: "\<bar>t - (s + q)\<bar> \<le> \<bar>s + q\<bar> * (U - 1)"
    using js_add_rel_error [OF ds dq add] by (simp add: U_def)
  have U1: "1 \<le> U" by (simp add: U_def)
  then have Uk: "1 \<le> U ^ k" by (rule one_le_power)
  have A0: "0 \<le> A" unfolding A_def by (rule sum_list_nonneg) auto
  have SA: "\<bar>S\<bar> \<le> A" unfolding S_def A_def by (rule sum_list_abs)
  have "\<bar>s + q\<bar> \<le> \<bar>s - S\<bar> + (A + \<bar>q\<bar>)" using SA by linarith
  then have "\<bar>s + q\<bar> * (U - 1) \<le> (\<bar>s - S\<bar> + (A + \<bar>q\<bar>)) * (U - 1)"
    using U1 by (intro mult_right_mono) simp_all
  with step have "\<bar>t - (s + q)\<bar> \<le> (\<bar>s - S\<bar> + (A + \<bar>q\<bar>)) * (U - 1)" by linarith
  moreover have "\<bar>t - (S + q)\<bar> \<le> \<bar>t - (s + q)\<bar> + \<bar>s - S\<bar>" by linarith
  ultimately have "\<bar>t - (S + q)\<bar> \<le> \<bar>s - S\<bar> * U + (A + \<bar>q\<bar>) * (U - 1)"
    by (simp add: algebra_simps)
  also have "\<bar>s - S\<bar> * U \<le> ((U ^ k - 1) * A) * U"
    using ih U1 by (intro mult_right_mono) simp_all
  also have "((U ^ k - 1) * A) * U \<le> ((U ^ k - 1) * (A + \<bar>q\<bar>)) * U"
    using Uk U1 A0 by (intro mult_right_mono mult_left_mono) simp_all
  also have "((U ^ k - 1) * (A + \<bar>q\<bar>)) * U + (A + \<bar>q\<bar>) * (U - 1) =
      (U ^ Suc k - 1) * (A + \<bar>q\<bar>)"
    by (simp add: algebra_simps)
  finally have "\<bar>t - (S + q)\<bar> \<le> (U ^ Suc k - 1) * (A + \<bar>q\<bar>)" by simp
  then show ?case by (simp add: U_def S_def A_def k_def)
qed

lemma js_sum_exact:
  assumes "\<forall>k\<le>length qs. is_double (Fin (sum_list (take k qs)))"
  shows "js_sum (map Fin qs) = Fin (sum_list qs)"
  using assms
proof (induction qs rule: rev_induct)
  case Nil
  then show ?case by (simp add: js_sum_Nil)
next
  case (snoc q qs)
  have "\<forall>k\<le>length qs. is_double (Fin (sum_list (take k qs)))"
  proof (intro allI impI)
    fix k assume k: "k \<le> length qs"
    then have "k \<le> length (qs @ [q])" by simp
    with snoc.prems have "is_double (Fin (sum_list (take k (qs @ [q]))))" by blast
    with k show "is_double (Fin (sum_list (take k qs)))" by simp
  qed
  then have ih: "js_sum (map Fin qs) = Fin (sum_list qs)" by (rule snoc.IH)
  have "is_double (Fin (sum_list (take (length (qs @ [q])) (qs @ [q]))))"
    using snoc.prems by blast
  then have "round_double (sum_list qs + q) = Fin (sum_list qs + q)" by simp
  then show ?case by (simp add: js_sum_snoc ih)
qed

lemma average_general:
  "(fs = [] \<longrightarrow> average (totals fs) = Fin 0) \<and>
   (fs \<noteq> [] \<longrightarrow>
      average (totals fs) = js_div (js_sum (map amount fs)) (Fin (of_nat (length fs))) \<and>
      Fin (of_nat (length fs)) \<noteq> Fin 0 \<and>
      (total_sum (totals fs) = Fin t \<longrightarrow>
         average (totals fs) = round_double (t / of_nat (length fs))) \<and>
      (total_sum (totals fs) = PosInf \<longrightarrow> average (totals fs) = PosInf) \<and>
      (total_sum (totals fs) = NegInf \<longrightarrow> average (totals fs) = NegInf) \<and>
      (total_sum (totals fs) = NaN \<longrightarrow> average (totals fs) = NaN) \<and>
      (map amount fs = map Fin qs \<and>
       (\<forall>k\<le>length qs. is_double (Fin (sum_list (take k qs)))) \<longrightarrow>
         average (totals fs) = round_double (sum_list qs / of_nat (length qs))))"
proof (intro conjI impI)
  show "average (totals fs) = Fin 0" if "fs = []"
    using that by (simp add: average_totals)
  assume ne: "fs \<noteq> []"
  then have avg: "average (totals fs) = js_div (total_sum (totals fs)) (Fin (of_nat (length fs)))"
    by (simp add: average_totals)
  have n: "(of_nat (length fs) :: rat) \<noteq> 0" "(0::rat) \<le> of_nat (length fs)"
    using ne by simp_all
  show "average (totals fs) = js_div (js_sum (map amount fs)) (Fin (of_nat (length fs)))"
    using avg by (simp only: total_sum_js_sum)
  show "Fin (of_nat (length fs)) \<noteq> Fin 0" using n by simp
  show "average (totals fs) = round_double (t / of_nat (length fs))"
    if "total_sum (totals fs) = Fin t"
    using n by (simp add: avg that)
  show "average (totals fs) = PosInf" if "total_sum (totals fs) = PosInf"
    using n by (simp add: avg that)
  show "average (totals fs) = NegInf" if "total_sum (totals fs) = NegInf"
    using n by (simp add: avg that)
  show "average (totals fs) = NaN" if "total_sum (totals fs) = NaN"
    by (simp add: avg that)
  show "average (totals fs) = round_double (sum_list qs / of_nat (length qs))"
    if "map amount fs = map Fin qs \<and>
       (\<forall>k\<le>length qs. is_double (Fin (sum_list (take k qs))))"
  proof -
    from that have "js_sum (map Fin qs) = Fin (sum_list qs)"
      by (intro js_sum_exact) simp
    with that have "total_sum (totals fs) = Fin (sum_list qs)"
      by (simp only: total_sum_js_sum)
    moreover from that have "length qs = length fs" by (metis length_map)
    ultimately show ?thesis using n by (simp add: avg)
  qed
qed

lemma categories_totals:
  "categories (totals fs) =
     foldl (\<lambda>acc expense.
        AList.update (category expense)
          (js_add (case map_of acc (category expense) of None \<Rightarrow> Fin 0 | Some v \<Rightarrow> v)
             (amount expense)) acc) [] fs"
  by (simp add: totals_def Let_def)

lemma categories_totals_snoc:
  "categories (totals (fs @ [e])) =
     AList.update (category e)
       (js_add (case map_of (categories (totals fs)) (category e) of None \<Rightarrow> Fin 0 | Some v \<Rightarrow> v)
          (amount e)) (categories (totals fs))"
  by (simp add: categories_totals)

lemma map_of_categories:
  "map_of (categories (totals fs)) c =
     (if c \<in> category ` set fs
      then Some (js_sum (map amount (filter (\<lambda>e. category e = c) fs)))
      else None)"
proof (induction fs rule: rev_induct)
  case Nil
  then show ?case by (simp add: categories_totals)
next
  case (snoc e fs)
  have none: "filter (\<lambda>e. category e = c) fs = []" if "c \<notin> category ` set fs"
    using that by (auto simp: filter_empty_conv)
  have old: "(case map_of (categories (totals fs)) c of None \<Rightarrow> Fin 0 | Some v \<Rightarrow> v) =
      js_sum (map amount (filter (\<lambda>e. category e = c) fs))"
    by (simp add: snoc none js_sum_Nil)
  show ?case
  proof (cases "category e = c")
    case True
    then show ?thesis
      using old by (simp add: categories_totals_snoc update_conv' js_sum_snoc)
  next
    case False
    then show ?thesis
      using snoc by (auto simp: categories_totals_snoc update_conv')
  qed
qed

lemma category_value_sum:
  "category_value (totals fs) c = js_sum (map amount (filter (\<lambda>e. category e = c) fs))"
proof (cases "c \<in> category ` set fs")
  case True
  then show ?thesis by (simp add: category_value_def map_of_categories)
next
  case False
  then have "filter (\<lambda>e. category e = c) fs = []" by (auto simp: filter_empty_conv)
  with False show ?thesis by (simp add: category_value_def map_of_categories js_sum_Nil)
qed

lemma keys_categories: "set (map fst (categories (totals fs))) = category ` set fs"
proof -
  have "set (map fst (categories (totals fs))) = dom (map_of (categories (totals fs)))"
    by (simp add: dom_map_of_conv_image_fst)
  also have "\<dots> = category ` set fs"
    by (auto simp: dom_def map_of_categories)
  finally show ?thesis .
qed

lemma distinct_categories: "distinct (map fst (categories (totals fs)))"
  by (induction fs rule: rev_induct)
    (simp_all add: categories_totals_snoc distinct_update, simp add: categories_totals)


lemma entry_value:
  assumes "(c, v) \<in> set (categories (totals fs))"
  shows "c \<in> category ` set fs" and "v = category_value (totals fs) c" and "is_double v"
proof -
  have m: "map_of (categories (totals fs)) c = Some v"
    using assms by (simp add: map_of_eq_Some_iff distinct_categories)
  then show c: "c \<in> category ` set fs" by (simp add: map_of_categories split: if_splits)
  from m show "v = category_value (totals fs) c" by (simp add: category_value_def)
  from c obtain e where "e \<in> set fs" "category e = c" by auto
  then have "filter (\<lambda>e. category e = c) fs \<noteq> []" by (auto simp: filter_empty_conv)
  then obtain ys y where "map amount (filter (\<lambda>e. category e = c) fs) = ys @ [y]"
    by (metis map_is_Nil_conv rev_exhaust)
  then have "v = js_add (js_sum ys) y"
    using m c by (simp add: map_of_categories js_sum_snoc)
  then show "is_double v" by (simp add: is_double_js_add)
qed




lemma no_filter: "filteredExpenses getMonthKey toLowerCase es ''All'' ''all'' [] = es"
  by (simp add: filteredExpenses_def)

lemma topCategory_totals:
  "topCategory (totals fs) =
     (case array_sort (\<lambda>(_, a) (_, b). js_sub b a) (categories (totals fs)) of
        [] \<Rightarrow> None
      | entry # _ \<Rightarrow> Some entry)"
  by (simp add: totals_def Let_def)

lemma entry_of_category:
  assumes "c \<in> category ` set fs"
  shows "(c, js_sum (map amount (filter (\<lambda>e. category e = c) fs))) \<in> set (categories (totals fs))"
proof -
  have "map_of (categories (totals fs)) c =
      Some (js_sum (map amount (filter (\<lambda>e. category e = c) fs)))"
    using assms by (simp add: map_of_categories)
  then show ?thesis by (rule map_of_SomeD)
qed

lemma top_general:
  assumes "\<forall>(c, v) \<in> set (categories (totals fs)). \<not> isNaN v"
  shows "(fs = [] \<longrightarrow> topCategory (totals fs) = None) \<and>
    (fs \<noteq> [] \<longrightarrow>
      (\<exists>c v. topCategory (totals fs) = Some (c, v) \<and> c \<in> category ` set fs \<and>
         v = js_sum (map amount (filter (\<lambda>e. category e = c) fs)) \<and>
         (\<forall>c' \<in> category ` set fs.
            js_le (js_sum (map amount (filter (\<lambda>e. category e = c') fs))) v)))"
proof (intro conjI impI)
  assume "fs = []"
  then show "topCategory (totals fs) = None"
    by (simp add: topCategory_totals categories_totals array_sort_def)
next
  assume "fs \<noteq> []"
  then have "category ` set fs \<noteq> {}" by simp
  then have "set (map fst (categories (totals fs))) \<noteq> {}" unfolding keys_categories .
  then have ne: "categories (totals fs) \<noteq> []" by auto
  have ok: "is_double v \<and> v \<noteq> NaN" if "(k, v) \<in> set (categories (totals fs))" for k v
  proof
    show "is_double v" using that by (rule entry_value(3))
    from assms that have "\<not> isNaN v" by auto
    then show "v \<noteq> NaN" by auto
  qed
  have "\<exists>k v rest. array_sort (\<lambda>(_, a) (_, b). js_sub b a) (categories (totals fs)) =
      (k, v) # rest \<and> (k, v) \<in> set (categories (totals fs)) \<and>
      (\<forall>(k', v') \<in> set (categories (totals fs)). js_le v' v)"
    by (rule array_sort_head_greatest [OF ne]) (rule ok)
  then obtain k v rest where
    s: "array_sort (\<lambda>(_, a) (_, b). js_sub b a) (categories (totals fs)) = (k, v) # rest"
    and mem: "(k, v) \<in> set (categories (totals fs))"
    and top: "\<forall>(k', v') \<in> set (categories (totals fs)). js_le v' v"
    by blast
  have "topCategory (totals fs) = Some (k, v)" by (simp add: topCategory_totals s)
  moreover have "k \<in> category ` set fs" using mem by (rule entry_value(1))
  moreover have "v = js_sum (map amount (filter (\<lambda>e. category e = k) fs))"
    using entry_value(2) [OF mem] by (simp add: category_value_sum)
  moreover have "js_le (js_sum (map amount (filter (\<lambda>e. category e = c') fs))) v"
    if "c' \<in> category ` set fs" for c'
    using entry_of_category [OF that] top by auto
  ultimately show "\<exists>c v. topCategory (totals fs) = Some (c, v) \<and> c \<in> category ` set fs \<and>
         v = js_sum (map amount (filter (\<lambda>e. category e = c) fs)) \<and>
         (\<forall>c' \<in> category ` set fs.
            js_le (js_sum (map amount (filter (\<lambda>e. category e = c') fs))) v)"
    by blast
qed

lemma js_add_nonneg:
  assumes "js_le (Fin 0) x" and "js_le (Fin 0) y"
  shows "js_le (Fin 0) (js_add x y)"
proof (cases x; cases y)
  fix a b
  assume xy: "x = Fin a" "y = Fin b"
  with assms have ab: "0 \<le> a" "0 \<le> b" by simp_all
  show ?thesis
  proof (cases "a + b = 0")
    case True
    then show ?thesis by (simp add: xy round_double_def)
  next
    case False
    with ab have "0 < a + b" by simp
    then show ?thesis
      by (cases rule: round_double_pos_cases) (simp_all add: xy)
  qed
qed (use assms in simp_all)

lemma js_sum_nonneg:
  assumes "\<forall>x\<in>set xs. js_le (Fin 0) x"
  shows "js_le (Fin 0) (js_sum xs)"
  using assms
  by (induction xs rule: rev_induct) (simp_all add: js_sum_Nil js_sum_snoc js_add_nonneg)

lemma nonneg_amounts_no_NaN:
  assumes "\<forall>e\<in>set fs. js_le (Fin 0) (amount e)"
  shows "\<forall>(c, v) \<in> set (categories (totals fs)). \<not> isNaN v"
proof (clarify)
  fix c v
  assume mem: "(c, v) \<in> set (categories (totals fs))" and nan: "isNaN v"
  have "js_le (Fin 0) (js_sum (map amount (filter (\<lambda>e. category e = c) fs)))"
    using assms by (intro js_sum_nonneg) simp
  then have "js_le (Fin 0) v"
    using entry_value(2) [OF mem] by (simp add: category_value_sum)
  with nan show False by (cases v) simp_all
qed

section \<open>Submitting the form\<close>

text \<open>
  The two branches of \<open>handleSubmit\<close>, and \<open>Number(amount.toFixed(2))\<close> as rounding to two
  decimal places followed by rounding to binary64.
\<close>

lemma handleSubmit_rejected:
  assumes "trim ws (form_description form) = [] \<or> isNaN (parseFloat (form_amount form)) \<or>
    js_le (parseFloat (form_amount form)) (Fin 0)"
  shows "handleSubmit ws parseFloat add todayIso (form, store) = (form, store)"
  using assms by (auto simp: handleSubmit_def Let_def)

lemma handleSubmit_accepted:
  assumes "trim ws (form_description form) \<noteq> []" and "\<not> isNaN (parseFloat (form_amount form))"
    and "\<not> js_le (parseFloat (form_amount form)) (Fin 0)"
  shows "handleSubmit ws parseFloat add todayIso (form, store) =
    (defaultFormState todayIso\<lparr>form_date := form_date form\<rparr>,
     add
       \<lparr>description = trim ws (form_description form),
        amount = toFixed2_Number (parseFloat (form_amount form)),
        category = form_category form,
        paymentMethod = form_paymentMethod form,
        date = form_date form,
        notes' = (if trim ws (form_notes form) = [] then None
                  else Some (trim ws (form_notes form)))\<rparr>
       store)"
  using assms by (simp add: handleSubmit_def Let_def)

lemma round_two_decimals_near: "\<bar>round_two_decimals q - q\<bar> \<le> 1 / 200"
proof -
  define n where "n = \<lfloor>q * 100 + 1 / 2\<rfloor>"
  have "of_int n \<le> q * 100 + 1 / 2" "q * 100 + 1 / 2 < of_int n + 1"
    unfolding n_def by linarith+
  then have "of_int n / 100 - q \<le> 1 / 200" "- (1 / 200) \<le> of_int n / 100 - q"
    by linarith+
  then have "\<bar>of_int n / 100 - q\<bar> \<le> 1 / 200" by (simp only: abs_le_iff) simp
  then show ?thesis by (simp add: round_two_decimals_def n_def)
qed

lemma round_two_decimals_of_int: "round_two_decimals (of_int k) = of_int k"
proof -
  have "(of_int k :: rat) * 100 + 1 / 2 = of_int (k * 100) + 1 / 2" by simp
  moreover have "\<lfloor>(of_int (k * 100) :: rat) + 1 / 2\<rfloor> = k * 100"
    by (rule floor_unique) simp_all
  ultimately show ?thesis by (simp add: round_two_decimals_def)
qed

lemma toFixed2_Number_rounds:
  assumes "is_double (Fin q)" and "0 < q"
  shows "toFixed2_Number (Fin q) = round_double (round_two_decimals q)"
proof (cases "10 ^ 21 \<le> q")
  case True
  have "(2::rat) ^ 53 \<le> 10 ^ 21" by simp
  then have "2 ^ 53 \<le> q" using True by (rule order_trans)
  moreover from assms(1) have rd: "round_double q = Fin q" by simp
  ultimately have "q \<in> \<int>" by (intro double_ge_2_53_integer)
  then obtain k where "q = of_int k" by (auto elim: Ints_cases)
  then have "round_two_decimals q = q" by (simp only: round_two_decimals_of_int)
  with True assms(2) rd show ?thesis by simp
next
  case False
  with assms(2) show ?thesis by (simp add: round_two_decimals_def Let_def)
qed

section \<open>Sample evaluations\<close>

text \<open>The values of the model on the sample data, computed with the lemmas on rounding.\<close>

lemma round_double_small:
  "round_double 1 = Fin 1"
  "round_double 2 = Fin 2"
  "round_double 3 = Fin 3"
  "round_double 4 = Fin 4"
  "round_double 6 = Fin 6"
  using round_double_near [of 0 1 "2 ^ 52"] round_double_near [of 1 2 "2 ^ 52"]
    round_double_near [of 2 4 "2 ^ 52"] round_double_near [of 2 6 "3 * 2 ^ 51"]
    round_double_near [of 1 3 "3 * 2 ^ 51"]
  by simp_all

lemma example_food:
  "filteredExpenses iso_month ascii_toLowerCase example_expenses ''Food'' ''all'' [] =
     [example_expenses ! 0, example_expenses ! 2]"
  by code_simp

lemma example_may:
  "filteredExpenses iso_month ascii_toLowerCase example_expenses ''All'' ''2024-05'' [] =
     [example_expenses ! 0, example_expenses ! 1]"
  by code_simp

lemma round_double_three_halves: "round_double (3 / 2) = Fin (3 / 2)"
  using round_double_near [of 0 "3 / 2" "3 * 2 ^ 51"] by simp

lemma example_prefix_sums:
  "\<forall>k\<le>length [1, 3 :: rat]. is_double (Fin (sum_list (take k [1, 3])))"
  "\<forall>k\<le>length [1, 2, 3 :: rat]. is_double (Fin (sum_list (take k [1, 2, 3])))"
proof -
  have cases: "k = 0 \<or> k = 1 \<or> k = 2" if "k \<le> 2" for k :: nat using that by arith
  have cases': "k = 0 \<or> k = 1 \<or> k = 2 \<or> k = 3" if "k \<le> 3" for k :: nat
    using that by arith
  have zero: "round_double 0 = Fin 0" by (simp add: round_double_def)
  show "\<forall>k\<le>length [1, 3 :: rat]. is_double (Fin (sum_list (take k [1, 3])))"
  proof (intro allI impI)
    fix k :: nat
    assume "k \<le> length [1, 3 :: rat]"
    then have "k \<le> 2" by simp
    from cases [OF this] show "is_double (Fin (sum_list (take k [1, 3])))"
      by (elim disjE) (simp_all add: zero round_double_small)
  qed
  show "\<forall>k\<le>length [1, 2, 3 :: rat]. is_double (Fin (sum_list (take k [1, 2, 3])))"
  proof (intro allI impI)
    fix k :: nat
    assume "k \<le> length [1, 2, 3 :: rat]"
    then have "k \<le> 3" by simp
    from cases' [OF this] show "is_double (Fin (sum_list (take k [1, 2, 3])))"
      by (elim disjE) (simp_all add: zero round_double_small)
  qed
qed

lemma single_total: "total_sum (totals (single_expense x)) = js_add (Fin 0) x"
  by (simp add: total_sum_totals single_expense_def)

lemma example_categories:
  "categories (totals example_expenses) = [(''Food'', Fin 4), (''Transport'', Fin 2)]"
  by (simp add: categories_totals example_expenses_def round_double_small)

lemma round_double_tenths:
  "round_double (1 / 10) = Fin (3602879701896397 / 36028797018963968)"
  "round_double (2 / 10) = Fin (3602879701896397 / 18014398509481984)"
  "round_double (3 / 10) = Fin (5404319552844595 / 18014398509481984)"
  using round_double_near [of "- 4" "1 / 10" 7205759403792794]
    round_double_near [of "- 3" "2 / 10" 7205759403792794]
    round_double_near [of "- 2" "3 / 10" 5404319552844595]
  by simp_all

lemma js_add_tenths:
  "js_add (Fin 0) (Fin (3602879701896397 / 36028797018963968)) =
     Fin (3602879701896397 / 36028797018963968)"
  "js_add (Fin 0) (Fin (3602879701896397 / 18014398509481984)) =
     Fin (3602879701896397 / 18014398509481984)"
  "js_add (Fin (3602879701896397 / 36028797018963968)) (Fin (3602879701896397 / 18014398509481984)) =
     Fin (1351079888211149 / 4503599627370496)"
  "js_add (Fin (1351079888211149 / 4503599627370496)) (Fin (5404319552844595 / 18014398509481984)) =
     Fin (1351079888211149 / 2251799813685248)"
  "js_add (Fin (3602879701896397 / 18014398509481984)) (Fin (5404319552844595 / 18014398509481984)) =
     Fin (1 / 2)"
  "js_add (Fin (3602879701896397 / 36028797018963968)) (Fin (1 / 2)) =
     Fin (5404319552844595 / 9007199254740992)"
  "js_add (Fin 0) (Fin (1 / 2)) = Fin (1 / 2)"
  "js_add (Fin (1 / 2)) (Fin (3602879701896397 / 36028797018963968)) =
     Fin (5404319552844595 / 9007199254740992)"
  using round_double_near [of "- 4" "3602879701896397 / 36028797018963968" 7205759403792794]
    round_double_near [of "- 3" "3602879701896397 / 18014398509481984" 7205759403792794]
    round_double_tie [of "- 2" "3602879701896397 / 36028797018963968 + 3602879701896397 / 18014398509481984" 5404319552844595]
    round_double_tie [of "- 1" "1351079888211149 / 4503599627370496 + 5404319552844595 / 18014398509481984" 5404319552844595]
    round_double_near [of "- 1" "1 / 2" 4503599627370496]
    round_double_near [of "- 1" "3602879701896397 / 36028797018963968 + 1 / 2" 5404319552844595]
  by simp_all

text \<open>The amounts 0.1, 0.2 and 0.3 are recorded by the form as they are.\<close>

lemma tenths_recordable:
  "toFixed2_Number (round_double (1 / 10)) = round_double (1 / 10)"
  "toFixed2_Number (round_double (2 / 10)) = round_double (2 / 10)"
  "toFixed2_Number (round_double (3 / 10)) = round_double (3 / 10)"
proof -
  have f: "\<lfloor>(3602879701896397 / 36028797018963968 :: rat) * 100 + 1 / 2\<rfloor> = 10"
    "\<lfloor>(3602879701896397 / 18014398509481984 :: rat) * 100 + 1 / 2\<rfloor> = 20"
    "\<lfloor>(5404319552844595 / 18014398509481984 :: rat) * 100 + 1 / 2\<rfloor> = 30"
    by (rule floor_unique; simp)+
  show "toFixed2_Number (round_double (1 / 10)) = round_double (1 / 10)"
    "toFixed2_Number (round_double (2 / 10)) = round_double (2 / 10)"
    "toFixed2_Number (round_double (3 / 10)) = round_double (3 / 10)"
    unfolding round_double_tenths toFixed2_Number.simps
    using f round_double_tenths by (simp_all add: Let_def)
qed

lemma rounding_total:
  "total_sum (totals rounding_expenses) = Fin (1351079888211149 / 2251799813685248)"
  unfolding rounding_expenses_def round_double_tenths
  by (simp add: total_sum_totals js_add_tenths del: js_add.simps)


lemma example_amounts_nonneg: "\<forall>e\<in>set example_expenses. js_le (Fin 0) (amount e)"
  by (simp add: example_expenses_def)

lemma example_top: "topCategory (totals example_expenses) = Some (''Food'', Fin 4)"
  by (simp add: topCategory_totals example_categories array_sort_def js_sub_def
      round_double_minus round_double_small)

lemma example_rounding:
  "round_double (1 / 8) = Fin (1 / 8)"
  "round_double (13 / 100) = Fin (1170935903116329 / 9007199254740992)"
  using round_double_near [of "- 3" "1 / 8" "2 ^ 52"]
    round_double_near [of "- 3" "13 / 100" 4683743612465316]
  by simp_all

lemma example_accepted:
  "\<not> (\<forall>c\<in>set (form_description example_form). is_space c)"
  "\<not> isNaN (example_parseFloat (form_amount example_form))"
  "\<not> js_le (example_parseFloat (form_amount example_form)) (Fin 0)"
  by (simp_all add: example_form_def is_space_def example_parseFloat_def)

lemma example_trims:
  "trim is_space (form_description example_form) = ''Tea''"
  "trim is_space (form_notes example_form) = []"
  by (simp_all add: example_form_def is_space_def trim_def)

lemma example_is_double: "is_double (example_parseFloat (form_amount example_form))"
  using example_rounding(1) by (simp add: example_form_def example_parseFloat_def)

lemma second_accepted:
  "\<not> (\<forall>c\<in>set (form_description second_form). is_space c)"
  "\<not> isNaN (example_parseFloat (form_amount second_form))"
  "\<not> js_le (example_parseFloat (form_amount second_form)) (Fin 0)"
  "is_double (example_parseFloat (form_amount second_form))"
  by (simp_all add: second_form_def is_space_def example_parseFloat_def)

lemma second_notes:
  "trim is_space (form_notes second_form) = ''for May''"
  "\<not> (\<forall>c\<in>set (form_notes second_form). is_space c)"
  by (simp_all add: second_form_def is_space_def trim_def)

lemma example_travel:
  "filteredExpenses iso_month ascii_toLowerCase example_expenses ''Travel'' ''all'' [] = []"
  by code_simp

section \<open>The claims\<close>

text \<open>
  Claim C1. For every list of expenses and every category filter, month filter and search
  term, the filtered list consists of exactly the expenses, in their original order, for
  which the category filter is "All" or equals the expense's category, the month filter is
  "all" or equals the month key of the expense's date, and the search term is empty or
  its lower-cased form occurs as a substring of the lower-cased description.
\<close>

theorem filteredExpenses_exact:
  "filteredExpenses getMonthKey toLowerCase es categoryFilter monthFilter searchTerm =
     filter (\<lambda>expense.
        (categoryFilter = ''All'' \<or> category expense = categoryFilter) \<and>
        (monthFilter = ''all'' \<or> getMonthKey (date expense) = monthFilter) \<and>
        (searchTerm = [] \<or>
           (\<exists>pre post. toLowerCase (description expense) = pre @ toLowerCase searchTerm @ post)))
       es"
  by (simp add: filteredExpenses_def string_includes_iff)

theorem filteredExpenses_exact_witness:
  "map expense_id
     (filter (\<lambda>expense.
        (''All'' = ''All'' \<or> category expense = ''All'') \<and>
        (''2024-05'' = ''all'' \<or> iso_month (date expense) = ''2024-05'') \<and>
        (''coffee'' = [] \<or>
           (\<exists>pre post. ascii_toLowerCase (description expense) =
              pre @ ascii_toLowerCase ''coffee'' @ post)))
       example_expenses) = [1]"
  unfolding filteredExpenses_exact [symmetric] by code_simp

text \<open>
  Claim C2. For every list of expenses and every filter state, the total of the summary is
  the sum of the amounts of the filtered expenses, and 0 for an empty filtered list. The
  amounts are added as JavaScript numbers, in list order: each further finite amount \<open>q\<close>
  takes a finite total \<open>s\<close> to the binary64 number nearest to \<open>s + q\<close>. So where no partial
  sum needs rounding the total is the exact sum, and for finite amounts with a finite total
  it differs from the exact sum by at most \<open>(1 + 1 / 2 ^ 53) ^ n - 1\<close> times the sum of the magnitudes of the
  \<open>n\<close> amounts.
\<close>

theorem total_is_sum_of_filtered:
  "total_sum (totals (filteredExpenses getMonthKey toLowerCase es cf mf st)) =
     js_sum (map amount (filteredExpenses getMonthKey toLowerCase es cf mf st)) \<and>
   total_sum (totals ([] :: 'i expense list)) = Fin 0 \<and>
   (filteredExpenses getMonthKey toLowerCase es cf mf st = fs @ [e] \<and>
    total_sum (totals fs) = Fin s \<and> amount e = Fin q \<longrightarrow>
      total_sum (totals (filteredExpenses getMonthKey toLowerCase es cf mf st)) =
        round_double (s + q)) \<and>
   (map amount (filteredExpenses getMonthKey toLowerCase es cf mf st) = map Fin qs \<longrightarrow>
      ((\<forall>k\<le>length qs. is_double (Fin (sum_list (take k qs)))) \<longrightarrow>
         total_sum (totals (filteredExpenses getMonthKey toLowerCase es cf mf st)) =
           Fin (sum_list qs)) \<and>
      ((\<forall>q\<in>set qs. is_double (Fin q)) \<and>
       total_sum (totals (filteredExpenses getMonthKey toLowerCase es cf mf st)) = Fin t \<longrightarrow>
         \<bar>t - sum_list qs\<bar> \<le>
           ((1 + 1 / 2 ^ 53) ^ length qs - 1) * sum_list (map abs qs)))"
proof (intro conjI impI)
  let ?fs = "filteredExpenses getMonthKey toLowerCase es cf mf st"
  show "total_sum (totals ?fs) = js_sum (map amount ?fs)" by (rule total_sum_js_sum)
  show "total_sum (totals ([] :: 'i expense list)) = Fin 0"
    by (simp add: total_sum_js_sum js_sum_def)
  show "total_sum (totals ?fs) = round_double (s + q)"
    if "?fs = fs @ [e] \<and> total_sum (totals fs) = Fin s \<and> amount e = Fin q"
    using that by (simp add: total_sum_js_sum js_sum_snoc)
  show "total_sum (totals ?fs) = Fin (sum_list qs)"
    if "map amount ?fs = map Fin qs"
      and "\<forall>k\<le>length qs. is_double (Fin (sum_list (take k qs)))"
    using that by (simp only: total_sum_js_sum js_sum_exact)
  show "\<bar>t - sum_list qs\<bar> \<le> ((1 + 1 / 2 ^ 53) ^ length qs - 1) * sum_list (map abs qs)"
    if "map amount ?fs = map Fin qs"
      and "(\<forall>q\<in>set qs. is_double (Fin q)) \<and> total_sum (totals ?fs) = Fin t"
  proof -
    from that have "js_sum (map Fin qs) = Fin t" by (simp only: total_sum_js_sum)
    with that(2) show ?thesis by (intro js_sum_error) simp_all
  qed
qed

theorem total_is_sum_of_filtered_witness:
  "total_sum (totals (filteredExpenses iso_month ascii_toLowerCase example_expenses
      ''Food'' ''all'' [])) = Fin 4 \<and>
   total_sum (totals (filteredExpenses iso_month ascii_toLowerCase example_expenses
      ''All'' ''2024-05'' [])) = Fin 3 \<and>
   total_sum (totals (filteredExpenses iso_month ascii_toLowerCase rounding_expenses
      ''All'' ''all'' [])) = Fin (1351079888211149 / 2251799813685248) \<and>
   \<bar>1351079888211149 / 2251799813685248 -
      sum_list [3602879701896397 / 36028797018963968, 3602879701896397 / 18014398509481984,
        5404319552844595 / 18014398509481984 :: rat]\<bar> \<le>
     ((1 + 1 / 2 ^ 53) ^ 3 - 1) *
       sum_list (map abs [3602879701896397 / 36028797018963968,
         3602879701896397 / 18014398509481984, 5404319552844595 / 18014398509481984 :: rat])"
proof (intro conjI)
  let ?fs = "filteredExpenses iso_month ascii_toLowerCase example_expenses ''Food'' ''all'' []"
  have amounts: "map amount ?fs = map Fin [1, 3]"
    by (simp add: example_food) (simp add: example_expenses_def)
  from total_is_sum_of_filtered [where getMonthKey = iso_month
      and toLowerCase = ascii_toLowerCase and es = example_expenses and cf = "''Food''"
      and mf = "''all''" and st = "[]" and qs = "[1, 3]"] amounts example_prefix_sums(1)
  have "total_sum (totals ?fs) = Fin (sum_list [1, 3])" by blast
  then show "total_sum (totals ?fs) = Fin 4" by simp
next
  let ?fs = "filteredExpenses iso_month ascii_toLowerCase example_expenses ''All'' ''2024-05'' []"
  have split: "?fs = [example_expenses ! 0] @ [example_expenses ! 1]"
    by (simp add: example_may)
  have first: "total_sum (totals [example_expenses ! 0]) = Fin 1"
    by (simp add: example_expenses_def total_sum_totals round_double_small)
  have second: "amount (example_expenses ! 1) = Fin 2"
    by (simp add: example_expenses_def)
  from total_is_sum_of_filtered [where getMonthKey = iso_month
      and toLowerCase = ascii_toLowerCase and es = example_expenses and cf = "''All''"
      and mf = "''2024-05''" and st = "[]" and fs = "[example_expenses ! 0]"
      and e = "example_expenses ! 1" and s = 1 and q = 2]
    split first second
  have "total_sum (totals ?fs) = round_double (1 + 2)" by blast
  then show "total_sum (totals ?fs) = Fin 3" by (simp add: round_double_small)
next
  let ?fs = "filteredExpenses iso_month ascii_toLowerCase rounding_expenses ''All'' ''all'' []"
  let ?qs = "[3602879701896397 / 36028797018963968, 3602879701896397 / 18014398509481984,
        5404319552844595 / 18014398509481984 :: rat]"
  show total: "total_sum (totals ?fs) = Fin (1351079888211149 / 2251799813685248)"
    by (simp only: no_filter rounding_total)
  have amounts: "map amount ?fs = map Fin ?qs"
    unfolding no_filter rounding_expenses_def round_double_tenths by simp
  have doubles: "\<forall>q\<in>set ?qs. is_double (Fin q)"
    using is_double_round_double [of "1 / 10", unfolded round_double_tenths]
      is_double_round_double [of "2 / 10", unfolded round_double_tenths]
      is_double_round_double [of "3 / 10", unfolded round_double_tenths]
    by (simp del: is_double.simps)
  from total_is_sum_of_filtered [where getMonthKey = iso_month
      and toLowerCase = ascii_toLowerCase and es = rounding_expenses and cf = "''All''"
      and mf = "''all''" and st = "[]" and qs = ?qs
      and t = "1351079888211149 / 2251799813685248"]
    amounts doubles total
  have "\<bar>1351079888211149 / 2251799813685248 - sum_list ?qs\<bar> \<le>
     ((1 + 1 / 2 ^ 53) ^ length ?qs - 1) * sum_list (map abs ?qs)"
    by blast
  moreover have "length ?qs = 3" by simp
  ultimately show "\<bar>1351079888211149 / 2251799813685248 - sum_list ?qs\<bar> \<le>
     ((1 + 1 / 2 ^ 53) ^ 3 - 1) * sum_list (map abs ?qs)"
    by (simp only:)
qed

text \<open>
  Claim C3. For every filter state the average is 0 when the filtered list is empty, and
  otherwise the total of the filtered amounts divided by their number, which is then not
  zero: for a finite total \<open>t\<close> it is the binary64 number nearest to \<open>t / n\<close>, an infinite
  total or \<open>NaN\<close> stays as it is, and where no partial sum needs rounding it is the binary64
  number nearest to the exact sum divided by \<open>n\<close>.
\<close>

theorem average_is_total_by_count:
  "(filteredExpenses getMonthKey toLowerCase es cf mf st = [] \<longrightarrow>
      average (totals (filteredExpenses getMonthKey toLowerCase es cf mf st)) = Fin 0) \<and>
   (filteredExpenses getMonthKey toLowerCase es cf mf st \<noteq> [] \<longrightarrow>
      average (totals (filteredExpenses getMonthKey toLowerCase es cf mf st)) =
        js_div (js_sum (map amount (filteredExpenses getMonthKey toLowerCase es cf mf st)))
          (Fin (of_nat (length (filteredExpenses getMonthKey toLowerCase es cf mf st)))) \<and>
      Fin (of_nat (length (filteredExpenses getMonthKey toLowerCase es cf mf st))) \<noteq> Fin 0 \<and>
      (total_sum (totals (filteredExpenses getMonthKey toLowerCase es cf mf st)) = Fin t \<longrightarrow>
         average (totals (filteredExpenses getMonthKey toLowerCase es cf mf st)) =
           round_double
             (t / of_nat (length (filteredExpenses getMonthKey toLowerCase es cf mf st)))) \<and>
      (total_sum (totals (filteredExpenses getMonthKey toLowerCase es cf mf st)) = PosInf \<longrightarrow>
         average (totals (filteredExpenses getMonthKey toLowerCase es cf mf st)) = PosInf) \<and>
      (total_sum (totals (filteredExpenses getMonthKey toLowerCase es cf mf st)) = NegInf \<longrightarrow>
         average (totals (filteredExpenses getMonthKey toLowerCase es cf mf st)) = NegInf) \<and>
      (total_sum (totals (filteredExpenses getMonthKey toLowerCase es cf mf st)) = NaN \<longrightarrow>
         average (totals (filteredExpenses getMonthKey toLowerCase es cf mf st)) = NaN) \<and>
      (map amount (filteredExpenses getMonthKey toLowerCase es cf mf st) = map Fin qs \<and>
       (\<forall>k\<le>length qs. is_double (Fin (sum_list (take k qs)))) \<longrightarrow>
         average (totals (filteredExpenses getMonthKey toLowerCase es cf mf st)) =
           round_double (sum_list qs / of_nat (length qs))))"
  by (rule average_general)

theorem average_is_total_by_count_witness:
  "average (totals (filteredExpenses iso_month ascii_toLowerCase example_expenses
      ''Travel'' ''all'' [])) = Fin 0 \<and>
   average (totals (filteredExpenses iso_month ascii_toLowerCase example_expenses
      ''All'' ''2024-05'' [])) = Fin (3 / 2) \<and>
   average (totals (filteredExpenses iso_month ascii_toLowerCase example_expenses
      ''All'' ''all'' [])) = Fin 2 \<and>
   average (totals (filteredExpenses iso_month ascii_toLowerCase (single_expense PosInf)
      ''All'' ''all'' [])) = PosInf \<and>
   average (totals (filteredExpenses iso_month ascii_toLowerCase (single_expense NegInf)
      ''All'' ''all'' [])) = NegInf \<and>
   average (totals (filteredExpenses iso_month ascii_toLowerCase (single_expense NaN)
      ''All'' ''all'' [])) = NaN"
proof (intro conjI)
  show "average (totals (filteredExpenses iso_month ascii_toLowerCase example_expenses
      ''Travel'' ''all'' [])) = Fin 0"
    using average_is_total_by_count [of iso_month ascii_toLowerCase example_expenses
        "''Travel''" "''all''" "[]"] example_travel
    by blast
next
  let ?fs = "filteredExpenses iso_month ascii_toLowerCase example_expenses ''All'' ''2024-05'' []"
  have ne: "?fs \<noteq> []" by (simp add: example_may)
  have total: "total_sum (totals ?fs) = Fin 3"
    by (simp add: example_may) (simp add: example_expenses_def total_sum_totals round_double_small)
  have len: "length ?fs = 2" by (simp add: example_may)
  from average_is_total_by_count [where getMonthKey = iso_month
      and toLowerCase = ascii_toLowerCase and es = example_expenses and cf = "''All''"
      and mf = "''2024-05''" and st = "[]" and t = 3] ne total
  have "average (totals ?fs) = round_double (3 / of_nat (length ?fs))" by blast
  then show "average (totals ?fs) = Fin (3 / 2)"
    by (simp only: len) (simp add: round_double_three_halves)
next
  let ?fs = "filteredExpenses iso_month ascii_toLowerCase example_expenses ''All'' ''all'' []"
  have fs: "?fs = example_expenses" by (rule no_filter)
  have ne: "?fs \<noteq> []" unfolding fs by (simp add: example_expenses_def)
  have amounts: "map amount ?fs = map Fin [1, 2, 3]"
    unfolding fs by (simp add: example_expenses_def)
  from average_is_total_by_count [where getMonthKey = iso_month
      and toLowerCase = ascii_toLowerCase and es = example_expenses and cf = "''All''"
      and mf = "''all''" and st = "[]" and qs = "[1, 2, 3]"] ne amounts example_prefix_sums(2)
  have "average (totals ?fs) =
      round_double (sum_list [1, 2, 3] / of_nat (length [1, 2, 3 :: rat]))"
    by blast
  then show "average (totals ?fs) = Fin 2" by (simp add: round_double_small)
next
  let ?fs = "filteredExpenses iso_month ascii_toLowerCase (single_expense PosInf) ''All'' ''all'' []"
  have fs: "?fs = single_expense PosInf" by (rule no_filter)
  have "?fs \<noteq> []" "total_sum (totals ?fs) = PosInf"
    unfolding fs by (simp_all add: single_total) (simp add: single_expense_def)
  with average_is_total_by_count [of iso_month ascii_toLowerCase "single_expense PosInf"
      "''All''" "''all''" "[]"]
  show "average (totals ?fs) = PosInf" by blast
next
  let ?fs = "filteredExpenses iso_month ascii_toLowerCase (single_expense NegInf) ''All'' ''all'' []"
  have fs: "?fs = single_expense NegInf" by (rule no_filter)
  have "?fs \<noteq> []" "total_sum (totals ?fs) = NegInf"
    unfolding fs by (simp_all add: single_total) (simp add: single_expense_def)
  with average_is_total_by_count [of iso_month ascii_toLowerCase "single_expense NegInf"
      "''All''" "''all''" "[]"]
  show "average (totals ?fs) = NegInf" by blast
next
  let ?fs = "filteredExpenses iso_month ascii_toLowerCase (single_expense NaN) ''All'' ''all'' []"
  have fs: "?fs = single_expense NaN" by (rule no_filter)
  have "?fs \<noteq> []" "total_sum (totals ?fs) = NaN"
    unfolding fs by (simp_all add: single_total) (simp add: single_expense_def)
  with average_is_total_by_count [of iso_month ascii_toLowerCase "single_expense NaN"
      "''All''" "''all''" "[]"]
  show "average (totals ?fs) = NaN" by blast
qed




text \<open>
  Claim C5. For a non-empty filtered list the top category is a category that occurs in
  the filtered list, together with the sum of its amounts, and that sum is greatest among
  the sums of all categories that occur; for an empty filtered list there is no top
  category. The sums are compared as numbers, so none of them may be \<open>NaN\<close>; amounts that
  are not negative never add up to \<open>NaN\<close>.
\<close>

theorem topCategory_greatest:
  assumes "\<forall>(c, v) \<in> set (categories (totals
      (filteredExpenses getMonthKey toLowerCase es cf mf st))). \<not> isNaN v"
  shows "(filteredExpenses getMonthKey toLowerCase es cf mf st = [] \<longrightarrow>
      topCategory (totals (filteredExpenses getMonthKey toLowerCase es cf mf st)) = None) \<and>
    (filteredExpenses getMonthKey toLowerCase es cf mf st \<noteq> [] \<longrightarrow>
      (\<exists>c v. topCategory (totals (filteredExpenses getMonthKey toLowerCase es cf mf st)) =
            Some (c, v) \<and>
         c \<in> category ` set (filteredExpenses getMonthKey toLowerCase es cf mf st) \<and>
         v = js_sum (map amount (filter (\<lambda>e. category e = c)
               (filteredExpenses getMonthKey toLowerCase es cf mf st))) \<and>
         (\<forall>c' \<in> category ` set (filteredExpenses getMonthKey toLowerCase es cf mf st).
            js_le (js_sum (map amount (filter (\<lambda>e. category e = c')
               (filteredExpenses getMonthKey toLowerCase es cf mf st)))) v)))"
  using assms by (rule top_general)

theorem topCategory_greatest_witness:
  "topCategory (totals (filteredExpenses iso_month ascii_toLowerCase example_expenses
      ''All'' ''all'' [])) = Some (''Food'', Fin 4) \<and>
   js_le (js_sum (map amount (filter (\<lambda>e. category e = ''Transport'')
      (filteredExpenses iso_month ascii_toLowerCase example_expenses ''All'' ''all'' []))))
     (Fin 4) \<and>
   topCategory (totals (filteredExpenses iso_month ascii_toLowerCase example_expenses
      ''Travel'' ''all'' [])) = None"
proof (intro conjI)
  let ?fs = "filteredExpenses iso_month ascii_toLowerCase example_expenses ''All'' ''all'' []"
  have fs: "?fs = example_expenses" by (rule no_filter)
  have "\<forall>(c, v) \<in> set (categories (totals ?fs)). \<not> isNaN v"
    unfolding fs using example_amounts_nonneg by (rule nonneg_amounts_no_NaN)
  from topCategory_greatest [OF this] have
    "?fs \<noteq> [] \<longrightarrow>
      (\<exists>c v. topCategory (totals ?fs) = Some (c, v) \<and> c \<in> category ` set ?fs \<and>
         v = js_sum (map amount (filter (\<lambda>e. category e = c) ?fs)) \<and>
         (\<forall>c' \<in> category ` set ?fs.
            js_le (js_sum (map amount (filter (\<lambda>e. category e = c') ?fs))) v))"
    by (rule conjunct2)
  moreover have "?fs \<noteq> []" unfolding fs by (simp add: example_expenses_def)
  ultimately obtain c v where top: "topCategory (totals ?fs) = Some (c, v)"
    and greatest: "\<forall>c' \<in> category ` set ?fs.
          js_le (js_sum (map amount (filter (\<lambda>e. category e = c') ?fs))) v"
    by blast
  from top have v: "v = Fin 4" by (simp add: fs example_top)
  have "''Transport'' \<in> category ` set ?fs"
    unfolding fs by (simp add: example_expenses_def)
  with greatest have "js_le (js_sum (map amount (filter (\<lambda>e. category e = ''Transport'') ?fs))) v"
    by blast
  then show "js_le (js_sum (map amount (filter (\<lambda>e. category e = ''Transport'') ?fs))) (Fin 4)"
    by (simp only: v)
  show "topCategory (totals ?fs) = Some (''Food'', Fin 4)"
    by (simp only: fs example_top)
next
  let ?fs = "filteredExpenses iso_month ascii_toLowerCase example_expenses ''Travel'' ''all'' []"
  have "\<forall>(c, v) \<in> set (categories (totals ?fs)). \<not> isNaN v"
    by (simp add: example_travel categories_totals)
  from topCategory_greatest [OF this] have "?fs = [] \<longrightarrow> topCategory (totals ?fs) = None"
    by (rule conjunct1)
  then show "topCategory (totals ?fs) = None" using example_travel by blast
qed

text \<open>
  Claim C6. An accepted submission calls \<open>addExpense\<close> once, with a record of exactly six
  fields: the trimmed description of the form, its amount (parsed and rounded), its
  category, its payment method, its date and its trimmed notes; nothing else of the form
  is passed on. The form is reset to its defaults, keeping the date.
\<close>

theorem accepted_submit_records_six_fields:
  assumes "\<not> (\<forall>c\<in>set (form_description form). isWhiteSpace c)"
    and "\<not> isNaN (parseFloat (form_amount form))"
    and "\<not> js_le (parseFloat (form_amount form)) (Fin 0)"
  shows "handleSubmit isWhiteSpace parseFloat add todayIso (form, store) =
    (defaultFormState todayIso\<lparr>form_date := form_date form\<rparr>,
     add
       \<lparr>description = trim isWhiteSpace (form_description form),
        amount = toFixed2_Number (parseFloat (form_amount form)),
        category = form_category form,
        paymentMethod = form_paymentMethod form,
        date = form_date form,
        notes' = (if trim isWhiteSpace (form_notes form) = [] then None
                  else Some (trim isWhiteSpace (form_notes form)))\<rparr>
       store)"
  using assms by (intro handleSubmit_accepted) (simp_all add: trim_Nil_iff)

theorem accepted_submit_records_six_fields_witness:
  "handleSubmit is_space example_parseFloat (#) ''2024-06-30'' (example_form, []) =
    (\<lparr>form_description = [], form_amount = [], form_category = ''Food'',
      form_paymentMethod = ''Card'', form_date = ''2024-05-02'', form_notes = []\<rparr>,
     [\<lparr>description = ''Tea'', amount = Fin (1170935903116329 / 9007199254740992),
       category = ''Food'', paymentMethod = ''Cash'', date = ''2024-05-02'',
       notes' = None\<rparr>])"
proof -
  have "toFixed2_Number (example_parseFloat (form_amount example_form)) =
      Fin (1170935903116329 / 9007199254740992)"
    using example_rounding(2) by (simp add: example_form_def example_parseFloat_def)
  then show ?thesis
    unfolding accepted_submit_records_six_fields [where form = example_form
        and isWhiteSpace = is_space and parseFloat = example_parseFloat, OF example_accepted]
      example_trims
    by (simp add: defaultFormState_def example_form_def)
qed

text \<open>
  Claim C7. Every recorded expense is persisted in the browser's storage: after
  \<open>addExpense\<close> the expense is in the saved list, together with the expenses recorded
  before, and it is in the list of a later session that reads the storage back.
\<close>

theorem addExpense_persists:
  "localStorage (addExpense newId input store) =
     Some (expenses (addExpense newId input store)) \<and>
   \<lparr>description = description input, amount = amount input, category = category input,
    paymentMethod = paymentMethod input, date = date input, notes' = notes' input,
    expense_id = newId (expenses store)\<rparr>
     \<in> set (the (localStorage (addExpense newId input store))) \<and>
   \<lparr>description = description input, amount = amount input, category = category input,
    paymentMethod = paymentMethod input, date = date input, notes' = notes' input,
    expense_id = newId (expenses store)\<rparr>
     \<in> set (expenses (loadStore (localStorage (addExpense newId input store)))) \<and>
   set (expenses store) \<subseteq>
     set (expenses (loadStore (localStorage (addExpense newId input store))))"
  by (auto simp: addExpense_def loadStore_def Let_def)

theorem addExpense_persists_witness:
  "map description (expenses (loadStore (localStorage
     (addExpense length
        \<lparr>description = ''Tea'', amount = Fin 1, category = ''Food'', paymentMethod = ''Cash'',
         date = ''2024-05-02'', notes' = None\<rparr>
        (loadStore (Some example_expenses)))))) =
   [''Tea'', ''Coffee'', ''Bus'', ''Iced COFFEE'']"
proof -
  have "set (expenses (loadStore (Some example_expenses))) \<subseteq>
     set (expenses (loadStore (localStorage (addExpense length
        \<lparr>description = ''Tea'', amount = Fin 1, category = ''Food'', paymentMethod = ''Cash'',
         date = ''2024-05-02'', notes' = None\<rparr>
        (loadStore (Some example_expenses))))))"
    using addExpense_persists [of length _ "loadStore (Some example_expenses)"] by blast
  then show ?thesis
    by (simp add: addExpense_def loadStore_def Let_def example_expenses_def)
qed

text \<open>
  Claim C8. For every form state whose description is empty or consists of white space only,
  or whose amount does not parse as a number, or whose parsed amount is less than or equal
  to zero, submitting the form adds no expense: the store and the form state stay as they
  are, whatever the store's \<open>addExpense\<close> would do.
\<close>

theorem rejected_submit_changes_nothing:
  assumes "(\<forall>c\<in>set (form_description form). isWhiteSpace c) \<or>
    isNaN (parseFloat (form_amount form)) \<or> js_le (parseFloat (form_amount form)) (Fin 0)"
  shows "handleSubmit isWhiteSpace parseFloat add todayIso (form, store) = (form, store)"
  using assms by (intro handleSubmit_rejected) (simp add: trim_Nil_iff)

theorem rejected_submit_changes_nothing_witness:
  "handleSubmit is_space example_parseFloat (#) ''2024-05-02''
     (example_form\<lparr>form_amount := ''-3''\<rparr>, []) =
   (example_form\<lparr>form_amount := ''-3''\<rparr>, []) \<and>
   handleSubmit is_space example_parseFloat (#) ''2024-05-02''
     (example_form\<lparr>form_amount := ''abc''\<rparr>, []) =
   (example_form\<lparr>form_amount := ''abc''\<rparr>, []) \<and>
   handleSubmit is_space example_parseFloat (#) ''2024-05-02''
     (example_form\<lparr>form_description := ''  ''\<rparr>, []) =
   (example_form\<lparr>form_description := ''  ''\<rparr>, [])"
proof (intro conjI)
  show "handleSubmit is_space example_parseFloat (#) ''2024-05-02''
     (example_form\<lparr>form_amount := ''-3''\<rparr>, []) =
   (example_form\<lparr>form_amount := ''-3''\<rparr>, [])"
    by (rule rejected_submit_changes_nothing) (simp add: example_parseFloat_def)
  show "handleSubmit is_space example_parseFloat (#) ''2024-05-02''
     (example_form\<lparr>form_amount := ''abc''\<rparr>, []) =
   (example_form\<lparr>form_amount := ''abc''\<rparr>, [])"
    by (rule rejected_submit_changes_nothing) (simp add: example_parseFloat_def)
  show "handleSubmit is_space example_parseFloat (#) ''2024-05-02''
     (example_form\<lparr>form_description := ''  ''\<rparr>, []) =
   (example_form\<lparr>form_description := ''  ''\<rparr>, [])"
    by (rule rejected_submit_changes_nothing) (simp add: is_space_def)
qed

text \<open>
  Claim C9. For every accepted submission the recorded amount is the parsed positive amount
  rounded to two decimal places (the binary64 number nearest to that decimal; an infinite
  amount stays infinite), the recorded description is the description of the form without
  the white space around it, and notes that are empty after trimming are recorded as absent,
  never as an empty string. The call of \<open>addExpense\<close> is observed by letting it put its
  argument in front of a list.
\<close>

theorem accepted_submit_normalises:
  assumes "\<not> (\<forall>c\<in>set (form_description form). isWhiteSpace c)"
    and "\<not> isNaN (parseFloat (form_amount form))"
    and "\<not> js_le (parseFloat (form_amount form)) (Fin 0)"
    and "is_double (parseFloat (form_amount form))"
  shows "\<exists>input.
    snd (handleSubmit isWhiteSpace parseFloat (#) todayIso (form, calls)) = input # calls \<and>
    (\<forall>q. parseFloat (form_amount form) = Fin q \<longrightarrow>
       0 < q \<and> amount input = round_double (round_two_decimals q) \<and>
       \<bar>round_two_decimals q - q\<bar> \<le> 1 / 200) \<and>
    (parseFloat (form_amount form) = PosInf \<longrightarrow> amount input = PosInf) \<and>
    description input = trim isWhiteSpace (form_description form) \<and>
    description input \<noteq> [] \<and>
    \<not> isWhiteSpace (hd (description input)) \<and> \<not> isWhiteSpace (last (description input)) \<and>
    (\<exists>pre post. form_description form = pre @ description input @ post \<and>
       (\<forall>c\<in>set pre. isWhiteSpace c) \<and> (\<forall>c\<in>set post. isWhiteSpace c)) \<and>
    ((\<forall>c\<in>set (form_notes form). isWhiteSpace c) \<longrightarrow> notes' input = None) \<and>
    (\<not> (\<forall>c\<in>set (form_notes form). isWhiteSpace c) \<longrightarrow>
       notes' input = Some (trim isWhiteSpace (form_notes form))) \<and>
    notes' input \<noteq> Some []"
proof -
  define input where "input =
    \<lparr>description = trim isWhiteSpace (form_description form),
     amount = toFixed2_Number (parseFloat (form_amount form)),
     category = form_category form,
     paymentMethod = form_paymentMethod form,
     date = form_date form,
     notes' = (if trim isWhiteSpace (form_notes form) = [] then None
               else Some (trim isWhiteSpace (form_notes form)))\<rparr>"
  have ne: "trim isWhiteSpace (form_description form) \<noteq> []"
    using assms(1) by (simp add: trim_Nil_iff)
  have "handleSubmit isWhiteSpace parseFloat (#) todayIso (form, calls) =
      (defaultFormState todayIso\<lparr>form_date := form_date form\<rparr>, input # calls)"
    unfolding input_def using ne assms(2,3) by (rule handleSubmit_accepted)
  then have call: "snd (handleSubmit isWhiteSpace parseFloat (#) todayIso (form, calls)) =
      input # calls"
    by simp
  have fin: "0 < q \<and> amount input = round_double (round_two_decimals q) \<and>
       \<bar>round_two_decimals q - q\<bar> \<le> 1 / 200"
    if "parseFloat (form_amount form) = Fin q" for q
  proof -
    from that assms(3) have q: "0 < q" by simp
    from that assms(4) have "is_double (Fin q)" by simp
    then have "toFixed2_Number (Fin q) = round_double (round_two_decimals q)"
      using q by (rule toFixed2_Number_rounds)
    then have "amount input = round_double (round_two_decimals q)"
      by (simp only: input_def that expense_input.simps)
    with q round_two_decimals_near [of q] show ?thesis by (intro conjI)
  qed
  have inf: "amount input = PosInf" if "parseFloat (form_amount form) = PosInf"
    using that by (simp add: input_def)
  have d: "description input = trim isWhiteSpace (form_description form)"
    by (simp add: input_def)
  have ends: "\<not> isWhiteSpace (hd (description input))"
    "\<not> isWhiteSpace (last (description input))"
    unfolding d using ne by (rule trim_ends)+
  have dec: "\<exists>pre post. form_description form = pre @ description input @ post \<and>
       (\<forall>c\<in>set pre. isWhiteSpace c) \<and> (\<forall>c\<in>set post. isWhiteSpace c)"
    unfolding d by (rule trim_decompose)
  have n1: "notes' input = None" if "\<forall>c\<in>set (form_notes form). isWhiteSpace c"
    using that by (simp add: input_def trim_Nil_iff)
  have n2: "notes' input = Some (trim isWhiteSpace (form_notes form))"
    if "\<not> (\<forall>c\<in>set (form_notes form). isWhiteSpace c)"
    using that by (simp add: input_def trim_Nil_iff)
  have n3: "notes' input \<noteq> Some []" by (simp add: input_def)
  show ?thesis
    using call fin inf d ne ends dec n1 n2 n3 by (intro exI [of _ input]) simp
qed

theorem accepted_submit_normalises_witness:
  "(\<exists>input. snd (handleSubmit is_space example_parseFloat (#) ''2024-06-30''
       (example_form, [])) = [input] \<and>
     amount input = Fin (1170935903116329 / 9007199254740992) \<and>
     description input = ''Tea'' \<and> notes' input = None) \<and>
   (\<exists>input. snd (handleSubmit is_space example_parseFloat (#) ''2024-06-30''
       (second_form, [])) = [input] \<and>
     amount input = PosInf \<and> notes' input = Some ''for May'')"
proof
  from accepted_submit_normalises [where form = example_form and isWhiteSpace = is_space
      and parseFloat = example_parseFloat and todayIso = "''2024-06-30''" and calls = "[]",
      OF example_accepted example_is_double]
  obtain input where
    call: "snd (handleSubmit is_space example_parseFloat (#) ''2024-06-30''
       (example_form, [])) = [input]"
    and am: "\<forall>q. example_parseFloat (form_amount example_form) = Fin q \<longrightarrow>
       0 < q \<and> amount input = round_double (round_two_decimals q) \<and>
       \<bar>round_two_decimals q - q\<bar> \<le> 1 / 200"
    and d: "description input = trim is_space (form_description example_form)"
    and n: "(\<forall>c\<in>set (form_notes example_form). is_space c) \<longrightarrow> notes' input = None"
    by blast
  have "example_parseFloat (form_amount example_form) = Fin (1 / 8)"
    by (simp add: example_form_def example_parseFloat_def)
  with am have "amount input = round_double (round_two_decimals (1 / 8))" by blast
  moreover have "round_two_decimals (1 / 8) = 13 / 100"
    by (simp add: round_two_decimals_def)
  ultimately have "amount input = Fin (1170935903116329 / 9007199254740992)"
    by (simp only: example_rounding)
  moreover have "description input = ''Tea''" using d by (simp only: example_trims)
  moreover have "notes' input = None" using n by (simp add: example_form_def is_space_def)
  ultimately show "\<exists>input. snd (handleSubmit is_space example_parseFloat (#) ''2024-06-30''
       (example_form, [])) = [input] \<and>
     amount input = Fin (1170935903116329 / 9007199254740992) \<and>
     description input = ''Tea'' \<and> notes' input = None"
    using call by blast
next
  from accepted_submit_normalises [where form = second_form and isWhiteSpace = is_space
      and parseFloat = example_parseFloat and todayIso = "''2024-06-30''" and calls = "[]",
      OF second_accepted]
  obtain input where
    call: "snd (handleSubmit is_space example_parseFloat (#) ''2024-06-30''
       (second_form, [])) = [input]"
    and am: "example_parseFloat (form_amount second_form) = PosInf \<longrightarrow> amount input = PosInf"
    and n: "\<not> (\<forall>c\<in>set (form_notes second_form). is_space c) \<longrightarrow>
       notes' input = Some (trim is_space (form_notes second_form))"
    by blast
  have "amount input = PosInf"
    using am by (simp add: second_form_def example_parseFloat_def)
  moreover have "notes' input = Some ''for May''"
    using n second_notes by simp
  ultimately show "\<exists>input. snd (handleSubmit is_space example_parseFloat (#) ''2024-06-30''
       (second_form, [])) = [input] \<and>
     amount input = PosInf \<and> notes' input = Some ''for May''"
    using call by blast
qed

text \<open>
  Claim C10. For every filter state the recent-activity table shows the first six entries
  of the filtered list, in order: at most six rows, each a member of the filtered list.
\<close>

theorem recentExpenses_first_six:
  "recentExpenses (filteredExpenses getMonthKey toLowerCase es cf mf st) =
     take 6 (filteredExpenses getMonthKey toLowerCase es cf mf st) \<and>
   length (recentExpenses (filteredExpenses getMonthKey toLowerCase es cf mf st)) =
     min 6 (length (filteredExpenses getMonthKey toLowerCase es cf mf st)) \<and>
   set (recentExpenses (filteredExpenses getMonthKey toLowerCase es cf mf st))
     \<subseteq> set (filteredExpenses getMonthKey toLowerCase es cf mf st)"
  by (auto simp: recentExpenses_def dest: in_set_takeD)

theorem recentExpenses_first_six_witness:
  "map expense_id
     (recentExpenses (filteredExpenses iso_month ascii_toLowerCase
        (example_expenses @ example_expenses @ example_expenses) ''All'' ''all'' [])) =
   [1, 2, 3, 1, 2, 3]"
proof -
  have "map expense_id (take 6 (filteredExpenses iso_month ascii_toLowerCase
      (example_expenses @ example_expenses @ example_expenses) ''All'' ''all'' [])) =
    [1, 2, 3, 1, 2, 3]"
    by code_simp
  with recentExpenses_first_six [of iso_month ascii_toLowerCase
      "example_expenses @ example_expenses @ example_expenses" "''All''" "''all''" "[]"]
  show ?thesis by simp
qed

end
